theory Spec2Isabelle
  imports Main
begin

section \<open>Data model (threads/thread.h)\<close>

text \<open>
  The scheduler of threads/thread.c is embedded as functions on an explicit kernel state.
  A \<^verbatim>\<open>struct thread *\<close> is the number of the page that holds the thread; a pointer that
  may be NULL is an \<open>addr option\<close> with \<open>None\<close> for NULL. The C \<^verbatim>\<open>int\<close> and
  \<^verbatim>\<open>int64_t\<close> fields are only assigned and compared, never computed with, so they are
  modelled as \<open>int\<close>; the one increment of the code (\<^verbatim>\<open>next_tid++\<close>) has its
  wrap-around written out. An \<^verbatim>\<open>ASSERT\<close> that fails and \<^verbatim>\<open>NOT_REACHED\<close> are values of
  type \<open>error\<close>, so every operation returns \<open>error + result\<close>.
\<close>

datatype thread_status = THREAD_RUNNING | THREAD_READY | THREAD_BLOCKED | THREAD_DYING

datatype intr_level = INTR_OFF | INTR_ON

datatype error = ASSERT_FAILED string | NOT_REACHED string

type_synonym addr = nat

type_synonym tid_t = int

definition TID_ERROR :: tid_t where
  "TID_ERROR = - 1"

definition PRI_MIN :: int where
  "PRI_MIN = 0"

definition PRI_DEFAULT :: int where
  "PRI_DEFAULT = 31"

definition PRI_MAX :: int where
  "PRI_MAX = 63"

definition THREAD_MAGIC :: nat where
  "THREAD_MAGIC = 0xcd6abf4b"

text \<open>
  \<^verbatim>\<open>struct thread\<close>. Of the saved interrupt frame \<open>tf\<close> only the two argument registers
  that \<^verbatim>\<open>thread_create\<close> fills with the entry function and its argument are kept; the
  list link \<open>elem\<close> is represented by the position of the thread in the lists of the
  kernel state.
\<close>

record thread =
  tid :: tid_t
  status :: thread_status
  name :: string
  priority :: int
  wakeup_tick :: int
  tf_rdi :: "addr option"
  tf_rsi :: "addr option"
  magic :: nat

text \<open>
  The file-level variables of thread.c, the pages that hold thread structures, and the
  interrupt state of threads/interrupt.c that the scheduler reads and writes.
  \<open>rsp_page\<close> is the page the stack pointer lies in, which is what
  \<^verbatim>\<open>running_thread ()\<close> computes.
\<close>

record kernel =
  pages :: "addr \<Rightarrow> thread"
  free_pages :: "addr list"
  ready_list :: "addr list"
  sleep_list :: "addr list"
  destruction_req :: "addr list"
  idle_thread :: "addr option"
  initial_thread :: "addr option"
  next_tid :: tid_t
  thread_ticks :: nat
  rsp_page :: addr
  intr_level_now :: intr_level
  in_intr_context :: bool
  yield_on_return :: bool

definition zero_thread :: thread where
  "zero_thread = \<lparr> tid = 0, status = THREAD_RUNNING, name = [], priority = 0,
     wakeup_tick = 0, tf_rdi = None, tf_rsi = None, magic = 0 \<rparr>"

definition upd_thread :: "kernel \<Rightarrow> addr \<Rightarrow> (thread \<Rightarrow> thread) \<Rightarrow> kernel" where
  "upd_thread s t f = s\<lparr> pages := (pages s)(t := f (pages s t)) \<rparr>"

section \<open>Collaborators outside thread.c\<close>

text \<open>
  Modelled from the spec: \<^verbatim>\<open>list_insert_ordered\<close> of lib/kernel/list.c is not among the
  sources. The spec describes the ordered wait list as a generic ordered-insertion
  sequence whose position is given by the comparison function; the element is put in
  front of the first entry that it is less than, and at the back when there is none.
\<close>

fun list_insert_ordered :: "'a list \<Rightarrow> 'a \<Rightarrow> ('a \<Rightarrow> 'a \<Rightarrow> bool) \<Rightarrow> 'a list" where
  "list_insert_ordered [] elem less_func = [elem]"
| "list_insert_ordered (e # es) elem less_func =
     (if less_func elem e then elem # e # es else e # list_insert_ordered es elem less_func)"

text \<open>
  Modelled from the spec: \<^verbatim>\<open>palloc_get_page\<close> of threads/palloc.c is not among the
  sources. The page allocator supplies the fixed-size memory block backing each task
  and fails when none is available; with \<^verbatim>\<open>PAL_ZERO\<close> the block is zero-filled. The
  pool of free blocks is the list \<open>free_pages\<close>.
\<close>

definition palloc_get_page :: "kernel \<Rightarrow> addr option \<times> kernel" where
  "palloc_get_page s =
     (case free_pages s of
        [] \<Rightarrow> (None, s)
      | p # ps \<Rightarrow> (Some p, s\<lparr> free_pages := ps, pages := (pages s)(p := zero_thread) \<rparr>))"

text \<open>
  Modelled from the spec: \<^verbatim>\<open>palloc_free_page\<close> of threads/palloc.c is not among the
  sources. The page allocator reclaims the memory block, which makes it available to
  later allocations.
\<close>

definition palloc_free_page :: "kernel \<Rightarrow> addr \<Rightarrow> kernel" where
  "palloc_free_page s p = s\<lparr> free_pages := p # free_pages s \<rparr>"

text \<open>
  Modelled from the spec: \<^verbatim>\<open>intr_disable\<close>, \<^verbatim>\<open>intr_set_level\<close> and
  \<^verbatim>\<open>intr_yield_on_return\<close> of threads/interrupt.c are not among the sources. Disabling
  interrupts masks them and returns the previous level; the deferred-preemption flag
  causes a yield to be requested at the interrupt's return point.
\<close>

definition intr_disable :: "kernel \<Rightarrow> intr_level \<times> kernel" where
  "intr_disable s = (intr_level_now s, s\<lparr> intr_level_now := INTR_OFF \<rparr>)"

definition intr_set_level :: "kernel \<Rightarrow> intr_level \<Rightarrow> kernel" where
  "intr_set_level s l = s\<lparr> intr_level_now := l \<rparr>"

definition intr_yield_on_return :: "kernel \<Rightarrow> kernel" where
  "intr_yield_on_return s = s\<lparr> yield_on_return := True \<rparr>"

section \<open>The scheduler (threads/thread.c)\<close>

definition is_thread :: "kernel \<Rightarrow> addr option \<Rightarrow> bool" where
  "is_thread s t = (case t of None \<Rightarrow> False | Some a \<Rightarrow> magic (pages s a) = THREAD_MAGIC)"

definition running_thread :: "kernel \<Rightarrow> addr" where
  "running_thread s = rsp_page s"

definition thread_current :: "kernel \<Rightarrow> error + addr" where
  "thread_current s =
     (let t = running_thread s in
      if \<not> is_thread s (Some t) then Inl (ASSERT_FAILED ''is_thread (t)'')
      else if status (pages s t) \<noteq> THREAD_RUNNING
        then Inl (ASSERT_FAILED ''t->status == THREAD_RUNNING'')
      else Inr t)"

text \<open>
  The comparison functions get list elements; \<^verbatim>\<open>thread_prio_cmp\<close> also answers
  \<^verbatim>\<open>false\<close> for a NULL thread.
\<close>

definition thread_wakeup_cmp :: "kernel \<Rightarrow> addr \<Rightarrow> addr \<Rightarrow> bool" where
  "thread_wakeup_cmp s a b =
     (let x = pages s a; y = pages s b in
      if wakeup_tick x \<noteq> wakeup_tick y then wakeup_tick x < wakeup_tick y
      else priority x > priority y)"

definition thread_prio_cmp :: "kernel \<Rightarrow> addr option \<Rightarrow> addr option \<Rightarrow> bool" where
  "thread_prio_cmp s a b =
     (case (a, b) of
        (Some x, Some y) \<Rightarrow> priority (pages s x) > priority (pages s y)
      | _ \<Rightarrow> False)"

definition prio_less :: "kernel \<Rightarrow> addr \<Rightarrow> addr \<Rightarrow> bool" where
  "prio_less s a b = thread_prio_cmp s (Some a) (Some b)"

definition init_thread :: "kernel \<Rightarrow> addr \<Rightarrow> string \<Rightarrow> int \<Rightarrow> error + kernel" where
  "init_thread s t nm prio =
     (if \<not> (PRI_MIN \<le> prio \<and> prio \<le> PRI_MAX)
        then Inl (ASSERT_FAILED ''PRI_MIN <= priority && priority <= PRI_MAX'')
      else Inr (s\<lparr> pages := (pages s)(t := zero_thread\<lparr> status := THREAD_BLOCKED,
             name := take 15 nm, priority := prio, magic := THREAD_MAGIC \<rparr>) \<rparr>))"

definition allocate_tid :: "kernel \<Rightarrow> tid_t \<times> kernel" where
  "allocate_tid s =
     (next_tid s, s\<lparr> next_tid := (next_tid s + 1 + 2 ^ 31) mod 2 ^ 32 - 2 ^ 31 \<rparr>)"

definition thread_unblock :: "kernel \<Rightarrow> addr option \<Rightarrow> error + kernel" where
  "thread_unblock s t =
     (if \<not> is_thread s t then Inl (ASSERT_FAILED ''is_thread (t)'')
      else
        let a = the t;
            (old_level, s1) = intr_disable s
        in if status (pages s1 a) \<noteq> THREAD_BLOCKED
             then Inl (ASSERT_FAILED ''t->status == THREAD_BLOCKED'')
           else
             let s2 = s1\<lparr> ready_list := list_insert_ordered (ready_list s1) a (prio_less s1) \<rparr>;
                 s3 = upd_thread s2 a (\<lambda>th. th\<lparr> status := THREAD_READY \<rparr>)
             in Inr (intr_set_level s3 old_level))"

definition next_thread_to_run :: "kernel \<Rightarrow> addr option \<times> kernel" where
  "next_thread_to_run s =
     (case ready_list s of
        [] \<Rightarrow> (idle_thread s, s)
      | t # ts \<Rightarrow> (Some t, s\<lparr> ready_list := ts \<rparr>))"

text \<open>
  \<^verbatim>\<open>thread_launch\<close> transfers control: from then on the stack pointer lies in the page
  of the next thread. The register file it saves and restores is not modelled.
\<close>

definition thread_launch :: "kernel \<Rightarrow> addr \<Rightarrow> kernel" where
  "thread_launch s th = s\<lparr> rsp_page := th \<rparr>"

definition schedule :: "kernel \<Rightarrow> error + kernel" where
  "schedule s =
     (let cur = running_thread s;
          (next, s1) = next_thread_to_run s
      in if intr_level_now s1 \<noteq> INTR_OFF
           then Inl (ASSERT_FAILED ''intr_get_level () == INTR_OFF'')
         else if status (pages s1 cur) = THREAD_RUNNING
           then Inl (ASSERT_FAILED ''curr->status != THREAD_RUNNING'')
         else if \<not> is_thread s1 next then Inl (ASSERT_FAILED ''is_thread (next)'')
         else
           let n = the next;
               s2 = upd_thread s1 n (\<lambda>th. th\<lparr> status := THREAD_RUNNING \<rparr>);
               s3 = s2\<lparr> thread_ticks := 0 \<rparr>
           in if cur \<noteq> n then
                let s4 = (if status (pages s3 cur) = THREAD_DYING
                             \<and> Some cur \<noteq> initial_thread s3
                          then s3\<lparr> destruction_req := destruction_req s3 @ [cur] \<rparr>
                          else s3)
                in Inr (thread_launch s4 n)
              else Inr s3)"

text \<open>The loop of \<^verbatim>\<open>do_schedule\<close> that empties the destruction list.\<close>

function do_schedule_loop :: "kernel \<Rightarrow> kernel" where
  "do_schedule_loop s =
     (case destruction_req s of
        [] \<Rightarrow> s
      | victim # rest \<Rightarrow>
          do_schedule_loop (palloc_free_page (s\<lparr> destruction_req := rest \<rparr>) victim))"
  by pat_completeness auto
termination
  by (relation "measure (\<lambda>s. length (destruction_req s))")
     (auto simp: palloc_free_page_def)

declare do_schedule_loop.simps [simp del]

definition do_schedule :: "kernel \<Rightarrow> thread_status \<Rightarrow> error + kernel" where
  "do_schedule s st =
     (if intr_level_now s \<noteq> INTR_OFF
        then Inl (ASSERT_FAILED ''intr_get_level () == INTR_OFF'')
      else
        case thread_current s of
          Inl e \<Rightarrow> Inl e
        | Inr _ \<Rightarrow>
            let s1 = do_schedule_loop s in
            (case thread_current s1 of
               Inl e \<Rightarrow> Inl e
             | Inr c \<Rightarrow> schedule (upd_thread s1 c (\<lambda>th. th\<lparr> status := st \<rparr>))))"

text \<open>
  A function that calls \<^verbatim>\<open>schedule\<close> goes on after the call only when the calling
  thread runs again. The model of such a function ends where control is handed to
  another thread: the rest of its body is applied only if the caller is still the
  running thread.
\<close>

definition resumed :: "addr \<Rightarrow> kernel \<Rightarrow> bool" where
  "resumed caller s = (running_thread s = caller)"

definition thread_block :: "kernel \<Rightarrow> error + kernel" where
  "thread_block s =
     (if in_intr_context s then Inl (ASSERT_FAILED ''!intr_context ()'')
      else if intr_level_now s \<noteq> INTR_OFF
        then Inl (ASSERT_FAILED ''intr_get_level () == INTR_OFF'')
      else
        case thread_current s of
          Inl e \<Rightarrow> Inl e
        | Inr c \<Rightarrow> schedule (upd_thread s c (\<lambda>th. th\<lparr> status := THREAD_BLOCKED \<rparr>)))"

definition thread_exit :: "kernel \<Rightarrow> error + kernel" where
  "thread_exit s =
     (if in_intr_context s then Inl (ASSERT_FAILED ''!intr_context ()'')
      else
        let caller = running_thread s;
            (old_level, s1) = intr_disable s
        in (case do_schedule s1 THREAD_DYING of
              Inl e \<Rightarrow> Inl e
            | Inr s2 \<Rightarrow>
                if resumed caller s2 then Inl (NOT_REACHED ''thread_exit'') else Inr s2))"

definition thread_yield :: "kernel \<Rightarrow> error + kernel" where
  "thread_yield s =
     (case thread_current s of
        Inl e \<Rightarrow> Inl e
      | Inr cur \<Rightarrow>
          if in_intr_context s then Inl (ASSERT_FAILED ''!intr_context ()'')
          else
            let (old_level, s1) = intr_disable s;
                s2 = (if Some cur \<noteq> idle_thread s1
                      then s1\<lparr> ready_list :=
                             list_insert_ordered (ready_list s1) cur (prio_less s1) \<rparr>
                      else s1)
            in (case do_schedule s2 THREAD_READY of
                  Inl e \<Rightarrow> Inl e
                | Inr s3 \<Rightarrow>
                    Inr (if resumed cur s3 then intr_set_level s3 old_level else s3)))"

definition thread_get_priority :: "kernel \<Rightarrow> error + int" where
  "thread_get_priority s =
     (case thread_current s of Inl e \<Rightarrow> Inl e | Inr c \<Rightarrow> Inr (priority (pages s c)))"

definition max_priority :: "kernel \<Rightarrow> error + kernel" where
  "max_priority s =
     (case ready_list s of
        [] \<Rightarrow> Inr s
      | th # _ \<Rightarrow>
          (case thread_get_priority s of
             Inl e \<Rightarrow> Inl e
           | Inr p \<Rightarrow> if p < priority (pages s th) then thread_yield s else Inr s))"

definition thread_set_priority :: "kernel \<Rightarrow> int \<Rightarrow> error + kernel" where
  "thread_set_priority s new_priority =
     (case thread_current s of
        Inl e \<Rightarrow> Inl e
      | Inr c \<Rightarrow> max_priority (upd_thread s c (\<lambda>th. th\<lparr> priority := new_priority \<rparr>)))"

definition thread_create ::
  "kernel \<Rightarrow> string \<Rightarrow> int \<Rightarrow> addr option \<Rightarrow> addr option \<Rightarrow> error + (tid_t \<times> kernel)" where
  "thread_create s nm prio function aux =
     (if function = None then Inl (ASSERT_FAILED ''function != NULL'')
      else
        case palloc_get_page s of
          (None, s1) \<Rightarrow> Inr (TID_ERROR, s1)
        | (Some t, s1) \<Rightarrow>
            (case init_thread s1 t nm prio of
               Inl e \<Rightarrow> Inl e
             | Inr s2 \<Rightarrow>
                 let (new_tid, s3) = allocate_tid s2;
                     s4 = upd_thread s3 t
                            (\<lambda>th. th\<lparr> tid := new_tid, tf_rdi := function, tf_rsi := aux \<rparr>)
                 in (case thread_unblock s4 (Some t) of
                       Inl e \<Rightarrow> Inl e
                     | Inr s5 \<Rightarrow>
                         (case thread_current s5 of
                            Inl e \<Rightarrow> Inl e
                          | Inr c \<Rightarrow>
                              if priority (pages s5 t) > priority (pages s5 c)
                              then (case thread_yield s5 of
                                      Inl e \<Rightarrow> Inl e
                                    | Inr s6 \<Rightarrow> Inr (new_tid, s6))
                              else Inr (new_tid, s5)))))"

definition thread_sleep :: "kernel \<Rightarrow> int \<Rightarrow> error + kernel" where
  "thread_sleep s wakeup =
     (case thread_current s of
        Inl e \<Rightarrow> Inl e
      | Inr cur \<Rightarrow>
          if Some cur = idle_thread s then Inr s
          else
            let (old_level, s1) = intr_disable s;
                s2 = upd_thread s1 cur (\<lambda>th. th\<lparr> wakeup_tick := wakeup \<rparr>)
            in if in_intr_context s2 then Inl (ASSERT_FAILED ''!intr_context ()'')
               else
                 let s3 = s2\<lparr> sleep_list :=
                            list_insert_ordered (sleep_list s2) cur (thread_wakeup_cmp s2) \<rparr>
                 in (case thread_block s3 of
                       Inl e \<Rightarrow> Inl e
                     | Inr s4 \<Rightarrow>
                         Inr (if resumed cur s4 then intr_set_level s4 old_level else s4)))"

text \<open>The loop of \<^verbatim>\<open>thread_awake\<close>, with the local variable \<open>preempt\<close>.\<close>

function thread_awake_loop :: "kernel \<Rightarrow> int \<Rightarrow> bool \<Rightarrow> error + (bool \<times> kernel)" where
  "thread_awake_loop s now_tick preempt =
     (case sleep_list s of
        [] \<Rightarrow> Inr (preempt, s)
      | t # rest \<Rightarrow>
          if wakeup_tick (pages s t) \<le> now_tick then
            (case thread_unblock (s\<lparr> sleep_list := rest \<rparr>) (Some t) of
               Inl e \<Rightarrow> Inl e
             | Inr s1 \<Rightarrow>
                 (case thread_current s1 of
                    Inl e \<Rightarrow> Inl e
                  | Inr c \<Rightarrow>
                      thread_awake_loop s1 now_tick
                        (if priority (pages s1 t) > priority (pages s1 c) then True
                         else preempt)))
          else Inr (preempt, s))"
  by pat_completeness auto
termination
  by (relation "measure (\<lambda>(s, now_tick, preempt). length (sleep_list s))")
     (auto simp: thread_unblock_def intr_disable_def intr_set_level_def upd_thread_def
           split: if_splits)

declare thread_awake_loop.simps [simp del]

definition thread_awake :: "kernel \<Rightarrow> int \<Rightarrow> error + kernel" where
  "thread_awake s now_tick =
     (let (old, s1) = intr_disable s in
      (case thread_awake_loop s1 now_tick False of
         Inl e \<Rightarrow> Inl e
       | Inr (preempt, s2) \<Rightarrow>
           Inr (intr_set_level (if preempt then intr_yield_on_return s2 else s2) old)))"

definition thread_init :: "kernel \<Rightarrow> error + kernel" where
  "thread_init s =
     (if intr_level_now s \<noteq> INTR_OFF
        then Inl (ASSERT_FAILED ''intr_get_level () == INTR_OFF'')
      else
        let s1 = s\<lparr> ready_list := [], destruction_req := [], sleep_list := [] \<rparr>;
            s2 = s1\<lparr> initial_thread := Some (running_thread s1) \<rparr>;
            main = running_thread s2
        in (case init_thread s2 main ''main'' PRI_DEFAULT of
              Inl e \<Rightarrow> Inl e
            | Inr s3 \<Rightarrow>
                let s4 = upd_thread s3 main (\<lambda>th. th\<lparr> status := THREAD_RUNNING \<rparr>);
                    (new_tid, s5) = allocate_tid s4
                in Inr (upd_thread s5 main (\<lambda>th. th\<lparr> tid := new_tid \<rparr>))))"

text \<open>
  The entry points of the scheduler as one step function, and runs of several calls.
  Between two calls other kernel code may mask or unmask interrupts and enter or leave
  an interrupt handler (\<open>Interrupt_state\<close>); so does a thread that is switched back in
  and completes the call it was suspended in, which restores the interrupt level it had
  saved (the closing \<^verbatim>\<open>intr_set_level (old_level)\<close> of \<^verbatim>\<open>thread_yield\<close> and
  \<^verbatim>\<open>thread_sleep\<close>): in a run this is an \<open>Interrupt_state\<close> step of its own. The
  idle thread announces itself once (\<^verbatim>\<open>idle_thread = thread_current ()\<close> at the start
  of \<^verbatim>\<open>idle\<close>).
\<close>

datatype call =
    Create string int "addr option" "addr option"
  | Block
  | Unblock "addr option"
  | Yield
  | Exit
  | Set_priority int
  | Sleep int
  | Awake int
  | Idle_start
  | Interrupt_state intr_level bool

fun do_call :: "kernel \<Rightarrow> call \<Rightarrow> error + kernel" where
  "do_call s (Create nm prio function aux) =
     (case thread_create s nm prio function aux of
        Inl e \<Rightarrow> Inl e
      | Inr (new_tid, s') \<Rightarrow> Inr s')"
| "do_call s Block = thread_block s"
| "do_call s (Unblock t) = thread_unblock s t"
| "do_call s Yield = thread_yield s"
| "do_call s Exit = thread_exit s"
| "do_call s (Set_priority new_priority) = thread_set_priority s new_priority"
| "do_call s (Sleep wakeup) = thread_sleep s wakeup"
| "do_call s (Awake now_tick) = thread_awake s now_tick"
| "do_call s Idle_start =
     (case thread_current s of
        Inl e \<Rightarrow> Inl e
      | Inr c \<Rightarrow> Inr (s\<lparr> idle_thread := Some c \<rparr>))"
| "do_call s (Interrupt_state level ctx) =
     Inr (s\<lparr> intr_level_now := level, in_intr_context := ctx \<rparr>)"

fun do_calls :: "kernel \<Rightarrow> call list \<Rightarrow> error + kernel" where
  "do_calls s [] = Inr s"
| "do_calls s (c # cs) =
     (case do_call s c of Inl e \<Rightarrow> Inl e | Inr s' \<Rightarrow> do_calls s' cs)"

section \<open>Specification predicates and a concrete kernel state\<close>

text \<open>
  The orderings of the two queues, as the spec words them: the ready queue by
  non-increasing priority, the sleep queue by non-decreasing wake tick and, for equal
  wake ticks, by non-increasing priority.
\<close>

definition ready_sorted :: "kernel \<Rightarrow> bool" where
  "ready_sorted s =
     sorted_wrt (\<lambda>a b. priority (pages s b) \<le> priority (pages s a)) (ready_list s)"

definition wake_before :: "kernel \<Rightarrow> addr \<Rightarrow> addr \<Rightarrow> bool" where
  "wake_before s a b =
     (wakeup_tick (pages s a) < wakeup_tick (pages s b)
      \<or> wakeup_tick (pages s a) = wakeup_tick (pages s b)
        \<and> priority (pages s b) \<le> priority (pages s a))"

definition sleep_sorted :: "kernel \<Rightarrow> bool" where
  "sleep_sorted s = sorted_wrt (wake_before s) (sleep_list s)"

text \<open>
  \<open>placed_by_priority s t old new\<close>: the queue \<open>new\<close> is \<open>old\<close> with \<open>t\<close> put behind
  every entry whose priority is at least that of \<open>t\<close> (so behind the entries of equal
  priority that were queued before it) and in front of every entry of lower priority;
  the entries of \<open>old\<close> keep their relative order.
\<close>

definition placed_by_priority :: "kernel \<Rightarrow> addr \<Rightarrow> addr list \<Rightarrow> addr list \<Rightarrow> bool" where
  "placed_by_priority s t old new =
     (new = filter (\<lambda>e. priority (pages s t) \<le> priority (pages s e)) old
            @ t # filter (\<lambda>e. priority (pages s e) < priority (pages s t)) old)"

text \<open>
  A kernel state used to run the operations on concrete data: the initial thread
  (page 1, priority 31) is running, page 2 holds the idle thread, pages 3 and 4 are
  ready, pages 5 to 7 sleep with wake ticks 10, 10 and 30, pages 8 and 9 are free, and
  page 10 holds a thread that is blocked outside the scheduler (on a semaphore, say).
\<close>

definition mk_thread :: "tid_t \<Rightarrow> thread_status \<Rightarrow> int \<Rightarrow> int \<Rightarrow> thread" where
  "mk_thread i st prio wake = zero_thread\<lparr> tid := i, status := st, priority := prio,
     wakeup_tick := wake, magic := THREAD_MAGIC \<rparr>"

definition example_kernel :: kernel where
  "example_kernel = \<lparr> pages = (\<lambda>_. zero_thread)
       (1 := mk_thread 1 THREAD_RUNNING 31 0,
        2 := mk_thread 2 THREAD_BLOCKED 0 0,
        3 := mk_thread 3 THREAD_READY 31 0,
        4 := mk_thread 4 THREAD_READY 10 0,
        5 := mk_thread 5 THREAD_BLOCKED 50 10,
        6 := mk_thread 6 THREAD_BLOCKED 20 10,
        7 := mk_thread 7 THREAD_BLOCKED 31 30,
        10 := mk_thread 8 THREAD_BLOCKED 31 0),
     free_pages = [8, 9], ready_list = [3, 4], sleep_list = [5, 6, 7],
     destruction_req = [], idle_thread = Some 2, initial_thread = Some 1,
     next_tid = 9, thread_ticks = 0, rsp_page = 1, intr_level_now = INTR_ON,
     in_intr_context = False, yield_on_return = False \<rparr>"

text \<open>
  Auxiliary notions for stating what a call of \<^verbatim>\<open>schedule\<close> does: the ready queue as
  \<^verbatim>\<open>thread_yield\<close> has arranged it when it calls \<^verbatim>\<open>do_schedule\<close>; the thread that
  \<^verbatim>\<open>next_thread_to_run\<close> picks from a queue; the state after the destruction list has
  been emptied; and the state after the running thread took status \<open>st\<close> and
  \<^verbatim>\<open>schedule\<close> handed control to \<open>n\<close>.
\<close>

definition yield_queue :: "kernel \<Rightarrow> addr list" where
  "yield_queue s =
     (if Some (rsp_page s) \<noteq> idle_thread s
      then list_insert_ordered (ready_list s) (rsp_page s) (prio_less s) else ready_list s)"

definition next_of :: "addr list \<Rightarrow> addr option \<Rightarrow> addr option" where
  "next_of q idle = (case q of [] \<Rightarrow> idle | t # _ \<Rightarrow> Some t)"

definition drained :: "kernel \<Rightarrow> kernel" where
  "drained s = s\<lparr> destruction_req := [], free_pages := rev (destruction_req s) @ free_pages s \<rparr>"

definition switched :: "kernel \<Rightarrow> thread_status \<Rightarrow> addr \<Rightarrow> kernel" where
  "switched s st n =
     s\<lparr> pages := (\<lambda>a. if a = n then (pages s n)\<lparr> status := THREAD_RUNNING \<rparr>
                      else if a = rsp_page s then (pages s a)\<lparr> status := st \<rparr>
                      else pages s a),
        ready_list := tl (ready_list s),
        thread_ticks := 0,
        destruction_req :=
          (if rsp_page s \<noteq> n \<and> st = THREAD_DYING \<and> Some (rsp_page s) \<noteq> initial_thread s
           then destruction_req s @ [rsp_page s] else destruction_req s),
        rsp_page := n \<rparr>"

text \<open>
  Further auxiliary notions: the state in which \<^verbatim>\<open>thread_create\<close> calls
  \<^verbatim>\<open>thread_unblock\<close> (page \<open>t\<close> allocated, initialised and given its id); the
  sleepers that are due at a tick and the leading run of them that \<^verbatim>\<open>thread_awake\<close>
  wakes; what \<^verbatim>\<open>thread_awake\<close> does to the state apart from the yield flag; and the
  state in which \<^verbatim>\<open>thread_sleep\<close> calls \<^verbatim>\<open>thread_block\<close>.
\<close>

definition created :: "kernel \<Rightarrow> addr \<Rightarrow> string \<Rightarrow> int \<Rightarrow> addr option \<Rightarrow> addr option \<Rightarrow> kernel" where
  "created s t nm prio function aux =
     s\<lparr> free_pages := tl (free_pages s),
        next_tid := (next_tid s + 1 + 2 ^ 31) mod 2 ^ 32 - 2 ^ 31,
        pages := (pages s)(t := zero_thread\<lparr> status := THREAD_BLOCKED, name := take 15 nm,
                   priority := prio, magic := THREAD_MAGIC, tid := next_tid s,
                   tf_rdi := function, tf_rsi := aux \<rparr>) \<rparr>"

definition due :: "kernel \<Rightarrow> int \<Rightarrow> addr \<Rightarrow> bool" where
  "due s now_tick t = (wakeup_tick (pages s t) \<le> now_tick)"

definition woken :: "kernel \<Rightarrow> int \<Rightarrow> addr list" where
  "woken s now_tick = takeWhile (due s now_tick) (sleep_list s)"

definition awake_effect :: "kernel \<Rightarrow> int \<Rightarrow> kernel \<Rightarrow> bool" where
  "awake_effect s now_tick s' =
     (sleep_list s' = dropWhile (due s now_tick) (sleep_list s) \<and>
      ready_list s' =
        foldl (\<lambda>q t. list_insert_ordered q t (prio_less s)) (ready_list s) (woken s now_tick) \<and>
      pages s' = (\<lambda>a. if a \<in> set (woken s now_tick)
                       then (pages s a)\<lparr> status := THREAD_READY \<rparr> else pages s a) \<and>
      free_pages s' = free_pages s \<and> destruction_req s' = destruction_req s \<and>
      idle_thread s' = idle_thread s \<and> initial_thread s' = initial_thread s \<and>
      next_tid s' = next_tid s \<and> thread_ticks s' = thread_ticks s \<and>
      rsp_page s' = rsp_page s \<and> intr_level_now s' = intr_level_now s \<and>
      in_intr_context s' = in_intr_context s)"

definition slept :: "kernel \<Rightarrow> int \<Rightarrow> kernel" where
  "slept s wakeup =
     (let s2 = upd_thread (s\<lparr> intr_level_now := INTR_OFF \<rparr>) (rsp_page s)
                 (\<lambda>th. th\<lparr> wakeup_tick := wakeup \<rparr>)
      in s2\<lparr> sleep_list := list_insert_ordered (sleep_list s2) (rsp_page s) (thread_wakeup_cmp s2) \<rparr>)"

text \<open>
  Notions for the destruction list. \<open>initial_kept\<close>: the page of the initial thread is
  neither on the destruction list nor in the pool of free pages. \<open>frees_within\<close>
  bounds what one call may add to the free pool and to the destruction list.
  \<open>makes_scheduling_decision\<close> tells whether a call, made in a given state, gets to
  \<^verbatim>\<open>schedule\<close>: \<^verbatim>\<open>thread_yield\<close>, \<^verbatim>\<open>thread_exit\<close> and \<^verbatim>\<open>thread_block\<close> do,
  \<^verbatim>\<open>thread_sleep\<close> does unless the idle thread calls it, \<^verbatim>\<open>thread_set_priority\<close> and
  \<^verbatim>\<open>thread_create\<close> do when they end with \<^verbatim>\<open>thread_yield\<close>. A run of calls is
  quiet when none of them does.
\<close>

definition initial_kept :: "kernel \<Rightarrow> bool" where
  "initial_kept s =
     (case initial_thread s of
        None \<Rightarrow> True
      | Some i \<Rightarrow> i \<notin> set (destruction_req s) \<and> i \<notin> set (free_pages s))"

definition frees_within :: "kernel \<Rightarrow> kernel \<Rightarrow> bool" where
  "frees_within s s' =
     (initial_thread s' = initial_thread s
      \<and> set (free_pages s') \<subseteq> set (free_pages s) \<union> set (destruction_req s)
      \<and> set (destruction_req s') \<subseteq>
           set (destruction_req s) \<union> {a. a = rsp_page s \<and> Some a \<noteq> initial_thread s})"

fun makes_scheduling_decision :: "kernel \<Rightarrow> call \<Rightarrow> bool" where
  "makes_scheduling_decision s Yield = True"
| "makes_scheduling_decision s Exit = True"
| "makes_scheduling_decision s Block = True"
| "makes_scheduling_decision s (Sleep wakeup) = (Some (running_thread s) \<noteq> idle_thread s)"
| "makes_scheduling_decision s (Set_priority new_priority) =
     (case ready_list s of
        [] \<Rightarrow> False
      | th # _ \<Rightarrow>
          new_priority < priority (pages (upd_thread s (running_thread s)
                                            (\<lambda>t. t\<lparr> priority := new_priority \<rparr>)) th))"
| "makes_scheduling_decision s (Create nm prio func aux) =
     (free_pages s \<noteq> [] \<and> priority (pages s (running_thread s)) < prio)"
| "makes_scheduling_decision s c = False"

fun quiet_run :: "kernel \<Rightarrow> call list \<Rightarrow> bool" where
  "quiet_run s [] = True"
| "quiet_run s (c # cs) =
     (\<not> makes_scheduling_decision s c
      \<and> (case do_call s c of Inl e \<Rightarrow> True | Inr s' \<Rightarrow> quiet_run s' cs))"

text \<open>
  Three more concrete states, continuing the example: the state in which thread 3 runs
  after the initial thread has yielded to it; the state after thread 3 has called
  \<^verbatim>\<open>thread_exit\<close> there, with the initial thread running again and page 3 on the
  destruction list; and that state with the initial thread marked \<^verbatim>\<open>THREAD_DYING\<close>,
  as \<^verbatim>\<open>do_schedule\<close> leaves it for \<^verbatim>\<open>schedule\<close>.
\<close>

definition example_worker :: kernel where
  "example_worker = \<lparr> pages = (\<lambda>_. zero_thread)
       (1 := mk_thread 1 THREAD_READY 31 0,
        2 := mk_thread 2 THREAD_BLOCKED 0 0,
        3 := mk_thread 3 THREAD_RUNNING 31 0,
        4 := mk_thread 4 THREAD_READY 10 0,
        10 := mk_thread 8 THREAD_BLOCKED 31 0),
     free_pages = [8, 9], ready_list = [1, 4], sleep_list = [],
     destruction_req = [], idle_thread = Some 2, initial_thread = Some 1,
     next_tid = 9, thread_ticks = 0, rsp_page = 3, intr_level_now = INTR_OFF,
     in_intr_context = False, yield_on_return = False \<rparr>"

definition example_exited :: kernel where
  "example_exited = \<lparr> pages = (\<lambda>_. zero_thread)
       (1 := mk_thread 1 THREAD_RUNNING 31 0,
        2 := mk_thread 2 THREAD_BLOCKED 0 0,
        3 := mk_thread 3 THREAD_DYING 31 0,
        4 := mk_thread 4 THREAD_READY 10 0,
        10 := mk_thread 8 THREAD_BLOCKED 31 0),
     free_pages = [8, 9], ready_list = [4], sleep_list = [],
     destruction_req = [3], idle_thread = Some 2, initial_thread = Some 1,
     next_tid = 9, thread_ticks = 0, rsp_page = 1, intr_level_now = INTR_OFF,
     in_intr_context = False, yield_on_return = False \<rparr>"

definition example_dying :: kernel where
  "example_dying = upd_thread example_exited 1 (\<lambda>th. th\<lparr> status := THREAD_DYING \<rparr>)"

text \<open>
  \<open>placed_by_wake s t old new\<close>: the sleep queue \<open>new\<close> is \<open>old\<close> with \<open>t\<close> put behind
  every entry that wakes earlier, or at the same tick with a priority at least that of
  \<open>t\<close>, and in front of every other entry; the entries of \<open>old\<close> keep their relative order.
\<close>

definition placed_by_wake :: "kernel \<Rightarrow> addr \<Rightarrow> addr list \<Rightarrow> addr list \<Rightarrow> bool" where
  "placed_by_wake s t old new =
     (new = filter (\<lambda>e. wake_before s e t) old @ t # filter (\<lambda>e. \<not> wake_before s e t) old)"

text \<open>
  The state of the queues and pages that every entry point of the scheduler maintains:
  both queues are in their order; the running thread is \<open>THREAD_RUNNING\<close>, the threads of
  the ready queue are \<open>THREAD_READY\<close>, those of the sleep queue \<open>THREAD_BLOCKED\<close>; no
  thread is queued twice; free pages and pages awaiting destruction hold no running, queued
  or idle thread; the idle thread does not sleep.
\<close>

definition kernel_inv :: "kernel \<Rightarrow> bool" where
  "kernel_inv s =
     (ready_sorted s \<and> sleep_sorted s
      \<and> status (pages s (rsp_page s)) = THREAD_RUNNING
      \<and> (\<forall>a\<in>set (ready_list s). status (pages s a) = THREAD_READY)
      \<and> (\<forall>a\<in>set (sleep_list s). status (pages s a) = THREAD_BLOCKED)
      \<and> distinct (ready_list s) \<and> distinct (sleep_list s)
      \<and> distinct (free_pages s @ destruction_req s)
      \<and> (\<forall>a\<in>set (free_pages s) \<union> set (destruction_req s).
            a \<noteq> rsp_page s \<and> a \<notin> set (ready_list s) \<and> a \<notin> set (sleep_list s)
            \<and> Some a \<noteq> idle_thread s)
      \<and> (\<forall>a\<in>set (sleep_list s). Some a \<noteq> idle_thread s))"

text \<open>
  What the rest of the kernel owes the scheduler when it calls it: \<^verbatim>\<open>thread_unblock\<close> is
  not applied to a thread of the sleep queue (those are woken by \<^verbatim>\<open>thread_awake\<close>) nor to
  a page that was freed or awaits destruction, and the idle thread does not exit. A run of
  calls is admissible when each call is, in the state it is made in.
\<close>

fun call_ok :: "kernel \<Rightarrow> call \<Rightarrow> bool" where
  "call_ok s (Unblock t) =
     (case t of
        None \<Rightarrow> True
      | Some a \<Rightarrow> a \<notin> set (sleep_list s) \<and> a \<notin> set (free_pages s)
                  \<and> a \<notin> set (destruction_req s))"
| "call_ok s Exit = (Some (running_thread s) \<noteq> idle_thread s)"
| "call_ok s c = True"

fun run_ok :: "kernel \<Rightarrow> call list \<Rightarrow> bool" where
  "run_ok s [] = True"
| "run_ok s (c # cs) =
     (call_ok s c \<and> (case do_call s c of Inl e \<Rightarrow> True | Inr s' \<Rightarrow> run_ok s' cs))"

text \<open>
  The state \<^verbatim>\<open>thread_init\<close> expects at boot: the page of the running code is not in the
  pool of free pages, the pool lists no page twice, and no idle thread exists yet. An
  example of such a state, with stale queue contents that \<^verbatim>\<open>thread_init\<close> clears.
\<close>

definition boot_ok :: "kernel \<Rightarrow> bool" where
  "boot_ok s = (distinct (free_pages s) \<and> running_thread s \<notin> set (free_pages s)
                \<and> idle_thread s = None)"

definition example_boot :: kernel where
  "example_boot = example_kernel\<lparr> ready_list := [7], sleep_list := [3], idle_thread := None,
     initial_thread := None, intr_level_now := INTR_OFF \<rparr>"

lemmas example_defs = example_kernel_def mk_thread_def zero_thread_def THREAD_MAGIC_def

lemmas example_state_defs = example_worker_def example_exited_def example_defs

section \<open>Basic facts about the operations\<close>

lemma list_insert_ordered_eq:
  "list_insert_ordered xs a lf =
     takeWhile (\<lambda>e. \<not> lf a e) xs @ a # dropWhile (\<lambda>e. \<not> lf a e) xs"
  by (induction xs) auto

lemma set_list_insert_ordered:
  "set (list_insert_ordered xs a lf) = insert a (set xs)"
  by (induction xs) auto

lemma sorted_wrt_list_insert_ordered:
  assumes tr: "\<And>x y z. le x y \<Longrightarrow> le y z \<Longrightarrow> le x z"
    and lt: "\<And>e. lf a e \<Longrightarrow> le a e"
    and ge: "\<And>e. \<not> lf a e \<Longrightarrow> le e a"
    and srt: "sorted_wrt le xs"
  shows "sorted_wrt le (list_insert_ordered xs a lf)"
  using srt
proof (induction xs)
  case Nil
  then show ?case by simp
next
  case (Cons e es)
  show ?case
  proof (cases "lf a e")
    case True
    have "le a x" if "x \<in> set es" for x
      using Cons.prems that lt [OF True] tr by auto
    with True Cons.prems lt show ?thesis by auto
  next
    case False
    with Cons ge show ?thesis by (auto simp: set_list_insert_ordered)
  qed
qed

lemma takeWhile_sorted_filter:
  assumes "sorted_wrt (\<lambda>a b. f b \<le> (f a :: int)) xs"
  shows "takeWhile (\<lambda>e. p \<le> f e) xs = filter (\<lambda>e. p \<le> f e) xs"
  using assms
proof (induction xs)
  case Nil
  then show ?case by simp
next
  case (Cons x xs)
  show ?case
  proof (cases "p \<le> f x")
    case True
    with Cons show ?thesis by simp
  next
    case False
    with Cons.prems have "\<forall>e\<in>set xs. \<not> p \<le> f e" by auto
    then have "filter (\<lambda>e. p \<le> f e) xs = []" by (simp add: filter_empty_conv)
    with False show ?thesis by simp
  qed
qed

lemma dropWhile_sorted_filter:
  assumes "sorted_wrt (\<lambda>a b. f b \<le> (f a :: int)) xs"
  shows "dropWhile (\<lambda>e. p \<le> f e) xs = filter (\<lambda>e. f e < p) xs"
  using assms
proof (induction xs)
  case Nil
  then show ?case by simp
next
  case (Cons x xs)
  show ?case
  proof (cases "p \<le> f x")
    case True
    with Cons show ?thesis by simp
  next
    case False
    with Cons.prems have "\<forall>e\<in>set xs. f e < p" by auto
    then have "filter (\<lambda>e. f e < p) xs = xs" by (simp add: filter_id_conv)
    with False show ?thesis by simp
  qed
qed

lemma prio_less_eq: "prio_less s = (\<lambda>a b. priority (pages s b) < priority (pages s a))"
  by (intro ext) (simp add: prio_less_def thread_prio_cmp_def)

lemma insert_by_priority_sorted:
  assumes "sorted_wrt (\<lambda>a b. priority (pages s b) \<le> priority (pages s a)) xs"
  shows "sorted_wrt (\<lambda>a b. priority (pages s b) \<le> priority (pages s a))
           (list_insert_ordered xs t (prio_less s))"
  by (rule sorted_wrt_list_insert_ordered [OF _ _ _ assms]) (auto simp: prio_less_eq)

lemma insert_by_priority_placed:
  assumes "sorted_wrt (\<lambda>a b. priority (pages s b) \<le> priority (pages s a)) xs"
  shows "placed_by_priority s t xs (list_insert_ordered xs t (prio_less s))"
proof -
  have "(\<lambda>e. \<not> prio_less s t e) = (\<lambda>e. priority (pages s t) \<le> priority (pages s e))"
    by (auto simp: prio_less_eq)
  then show ?thesis
    using takeWhile_sorted_filter [OF assms, of "priority (pages s t)"]
      dropWhile_sorted_filter [OF assms, of "priority (pages s t)"]
    by (simp add: placed_by_priority_def list_insert_ordered_eq)
qed

lemma thread_unblock_Inr:
  "thread_unblock s t = Inr s' \<longleftrightarrow>
     (\<exists>a. t = Some a \<and> magic (pages s a) = THREAD_MAGIC
        \<and> status (pages s a) = THREAD_BLOCKED
        \<and> s' = s\<lparr> ready_list := list_insert_ordered (ready_list s) a (prio_less s),
                  pages := (pages s)(a := (pages s a)\<lparr> status := THREAD_READY \<rparr>) \<rparr>)"
  by (cases t) (auto simp: thread_unblock_def is_thread_def intr_disable_def intr_set_level_def
      upd_thread_def prio_less_eq)

lemma thread_unblock_Inl:
  "(\<exists>e. thread_unblock s t = Inl e) \<longleftrightarrow>
     \<not> (is_thread s t \<and> status (pages s (the t)) = THREAD_BLOCKED)"
  by (cases t) (auto simp: thread_unblock_def is_thread_def intr_disable_def intr_set_level_def
      upd_thread_def prio_less_eq)

lemma do_schedule_loop_eq:
  "do_schedule_loop s =
     s\<lparr> destruction_req := [], free_pages := rev (destruction_req s) @ free_pages s \<rparr>"
proof (induction s rule: do_schedule_loop.induct)
  case (1 s)
  show ?case
  proof (cases "destruction_req s")
    case Nil
    then show ?thesis by (subst do_schedule_loop.simps) simp
  next
    case (Cons victim rest)
    have "do_schedule_loop s =
        do_schedule_loop (palloc_free_page (s\<lparr> destruction_req := rest \<rparr>) victim)"
      by (subst do_schedule_loop.simps) (simp add: Cons)
    also have "\<dots> =
        s\<lparr> destruction_req := [], free_pages := rev (destruction_req s) @ free_pages s \<rparr>"
      using "1.IH" [OF Cons] by (simp add: palloc_free_page_def Cons)
    finally show ?thesis .
  qed
qed

lemma schedule_Inr:
  "schedule s = Inr s' \<longleftrightarrow>
     intr_level_now s = INTR_OFF \<and> status (pages s (rsp_page s)) \<noteq> THREAD_RUNNING \<and>
     (\<exists>n. fst (next_thread_to_run s) = Some n \<and> magic (pages s n) = THREAD_MAGIC \<and>
        s' = s\<lparr> pages := (pages s)(n := (pages s n)\<lparr> status := THREAD_RUNNING \<rparr>),
                ready_list := tl (ready_list s), thread_ticks := 0,
                destruction_req :=
                  (if rsp_page s \<noteq> n \<and> status (pages s (rsp_page s)) = THREAD_DYING
                      \<and> Some (rsp_page s) \<noteq> initial_thread s
                   then destruction_req s @ [rsp_page s] else destruction_req s),
                rsp_page := n \<rparr>)"
  by (cases "ready_list s"; cases "idle_thread s")
     (auto simp: schedule_def next_thread_to_run_def running_thread_def is_thread_def
        upd_thread_def thread_launch_def Let_def)

lemma do_schedule_Inr:
  "do_schedule s st = Inr s' \<longleftrightarrow>
     intr_level_now s = INTR_OFF \<and> magic (pages s (rsp_page s)) = THREAD_MAGIC \<and>
     status (pages s (rsp_page s)) = THREAD_RUNNING \<and>
     schedule (s\<lparr> destruction_req := [],
                  free_pages := rev (destruction_req s) @ free_pages s,
                  pages := (pages s)(rsp_page s := (pages s (rsp_page s))\<lparr> status := st \<rparr>) \<rparr>)
       = Inr s'"
  by (auto simp: do_schedule_def thread_current_def running_thread_def is_thread_def
        upd_thread_def do_schedule_loop_eq Let_def split: sum.splits)

lemma next_thread_to_run_fst: "fst (next_thread_to_run s) = next_of (ready_list s) (idle_thread s)"
  by (simp add: next_thread_to_run_def next_of_def split: list.splits)

lemma schedule_switched:
  "schedule (s\<lparr> pages := (pages s)(rsp_page s := (pages s (rsp_page s))\<lparr> status := st \<rparr>) \<rparr>) = Inr s' \<longleftrightarrow>
     intr_level_now s = INTR_OFF \<and> st \<noteq> THREAD_RUNNING \<and>
     (\<exists>n. next_of (ready_list s) (idle_thread s) = Some n \<and> magic (pages s n) = THREAD_MAGIC \<and>
        s' = switched s st n)"
  unfolding schedule_Inr next_thread_to_run_fst switched_def
  by (rule arg_cong2 [where f = "(\<and>)"] arg_cong [where f = Ex] ext refl | simp)+
     (auto intro!: arg_cong [where f = "\<lambda>p. _ \<lparr> pages := p \<rparr>"] simp: fun_eq_iff)

lemma do_schedule_switched:
  "do_schedule s st = Inr s' \<longleftrightarrow>
     intr_level_now s = INTR_OFF \<and> magic (pages s (rsp_page s)) = THREAD_MAGIC \<and>
     status (pages s (rsp_page s)) = THREAD_RUNNING \<and> st \<noteq> THREAD_RUNNING \<and>
     (\<exists>n. next_of (ready_list s) (idle_thread s) = Some n \<and> magic (pages s n) = THREAD_MAGIC \<and>
        s' = switched (drained s) st n)"
  using schedule_switched [of "drained s" st s']
  by (auto simp: do_schedule_Inr drained_def)

lemma thread_block_switched:
  "thread_block s = Inr s' \<longleftrightarrow>
     \<not> in_intr_context s \<and> intr_level_now s = INTR_OFF \<and>
     magic (pages s (rsp_page s)) = THREAD_MAGIC \<and> status (pages s (rsp_page s)) = THREAD_RUNNING \<and>
     (\<exists>n. next_of (ready_list s) (idle_thread s) = Some n \<and> magic (pages s n) = THREAD_MAGIC \<and>
        s' = switched s THREAD_BLOCKED n)"
proof -
  have "thread_block s = Inr s' \<longleftrightarrow>
     \<not> in_intr_context s \<and> intr_level_now s = INTR_OFF \<and>
     magic (pages s (rsp_page s)) = THREAD_MAGIC \<and> status (pages s (rsp_page s)) = THREAD_RUNNING \<and>
     schedule (s\<lparr> pages := (pages s)(rsp_page s := (pages s (rsp_page s))\<lparr> status := THREAD_BLOCKED \<rparr>) \<rparr>) = Inr s'"
    by (simp add: thread_block_def thread_current_def running_thread_def is_thread_def
      upd_thread_def Let_def)
  then show ?thesis unfolding schedule_switched by blast
qed

lemma switched_simps [simp]:
  "rsp_page (switched s st n) = n"
  "ready_list (switched s st n) = tl (ready_list s)"
  "sleep_list (switched s st n) = sleep_list s"
  "free_pages (switched s st n) = free_pages s"
  "idle_thread (switched s st n) = idle_thread s"
  "initial_thread (switched s st n) = initial_thread s"
  "next_tid (switched s st n) = next_tid s"
  "thread_ticks (switched s st n) = 0"
  "intr_level_now (switched s st n) = intr_level_now s"
  "in_intr_context (switched s st n) = in_intr_context s"
  "yield_on_return (switched s st n) = yield_on_return s"
  "destruction_req (switched s st n) =
     (if rsp_page s \<noteq> n \<and> st = THREAD_DYING \<and> Some (rsp_page s) \<noteq> initial_thread s
      then destruction_req s @ [rsp_page s] else destruction_req s)"
  "pages (switched s st n) =
     (\<lambda>a. if a = n then (pages s n)\<lparr> status := THREAD_RUNNING \<rparr>
          else if a = rsp_page s then (pages s a)\<lparr> status := st \<rparr> else pages s a)"
  by (simp_all add: switched_def)

lemma drained_simps [simp]:
  "rsp_page (drained s) = rsp_page s"
  "ready_list (drained s) = ready_list s"
  "sleep_list (drained s) = sleep_list s"
  "free_pages (drained s) = rev (destruction_req s) @ free_pages s"
  "destruction_req (drained s) = []"
  "idle_thread (drained s) = idle_thread s"
  "initial_thread (drained s) = initial_thread s"
  "next_tid (drained s) = next_tid s"
  "thread_ticks (drained s) = thread_ticks s"
  "intr_level_now (drained s) = intr_level_now s"
  "in_intr_context (drained s) = in_intr_context s"
  "yield_on_return (drained s) = yield_on_return s"
  "pages (drained s) = pages s"
  by (simp_all add: drained_def)

lemma intr_level_now_same: "intr_level_now x = l \<Longrightarrow> x\<lparr> intr_level_now := l \<rparr> = x"
  by auto

lemma thread_exit_switched:
  "thread_exit s = Inr s' \<longleftrightarrow>
     \<not> in_intr_context s \<and>
     magic (pages s (rsp_page s)) = THREAD_MAGIC \<and> status (pages s (rsp_page s)) = THREAD_RUNNING \<and>
     (\<exists>n. next_of (ready_list s) (idle_thread s) = Some n \<and> magic (pages s n) = THREAD_MAGIC \<and>
        n \<noteq> rsp_page s \<and>
        s' = switched (drained (s\<lparr> intr_level_now := INTR_OFF \<rparr>)) THREAD_DYING n)"
proof (cases "do_schedule (s\<lparr> intr_level_now := INTR_OFF \<rparr>) THREAD_DYING")
  case (Inl e)
  then show ?thesis
    using do_schedule_switched [of "s\<lparr> intr_level_now := INTR_OFF \<rparr>" THREAD_DYING s']
    by (auto simp: thread_exit_def intr_disable_def)
next
  case (Inr s2)
  then obtain n where n: "next_of (ready_list s) (idle_thread s) = Some n"
     "magic (pages s n) = THREAD_MAGIC" "s2 = switched (drained (s\<lparr> intr_level_now := INTR_OFF \<rparr>)) THREAD_DYING n"
     and c: "magic (pages s (rsp_page s)) = THREAD_MAGIC" "status (pages s (rsp_page s)) = THREAD_RUNNING"
    by (auto simp: do_schedule_switched)
  have "thread_exit s = (if in_intr_context s then Inl (ASSERT_FAILED ''!intr_context ()'')
      else if n = rsp_page s then Inl (NOT_REACHED ''thread_exit'') else Inr s2)"
    by (simp add: thread_exit_def intr_disable_def Inr resumed_def running_thread_def n(3))
  then show ?thesis using n c by auto
qed


lemma thread_yield_switched:
  "thread_yield s = Inr s' \<longleftrightarrow>
     \<not> in_intr_context s \<and>
     magic (pages s (rsp_page s)) = THREAD_MAGIC \<and> status (pages s (rsp_page s)) = THREAD_RUNNING \<and>
     (\<exists>n. next_of (yield_queue s) (idle_thread s) = Some n \<and> magic (pages s n) = THREAD_MAGIC \<and>
        s' = (switched (drained (s\<lparr> intr_level_now := INTR_OFF, ready_list := yield_queue s \<rparr>))
                THREAD_READY n)
               \<lparr> intr_level_now := (if n = rsp_page s then intr_level_now s else INTR_OFF) \<rparr>)"
proof -
  let ?s2 = "s\<lparr> intr_level_now := INTR_OFF, ready_list := yield_queue s \<rparr>"
  have y: "thread_yield s =
      (if magic (pages s (rsp_page s)) \<noteq> THREAD_MAGIC then Inl (ASSERT_FAILED ''is_thread (t)'')
       else if status (pages s (rsp_page s)) \<noteq> THREAD_RUNNING
         then Inl (ASSERT_FAILED ''t->status == THREAD_RUNNING'')
       else if in_intr_context s then Inl (ASSERT_FAILED ''!intr_context ()'')
       else (case do_schedule ?s2 THREAD_READY of
               Inl e \<Rightarrow> Inl e
             | Inr s3 \<Rightarrow> Inr (if rsp_page s3 = rsp_page s
                                then s3\<lparr> intr_level_now := intr_level_now s \<rparr> else s3)))"
    by (simp add: thread_yield_def thread_current_def running_thread_def is_thread_def
       intr_disable_def intr_set_level_def resumed_def Let_def yield_queue_def prio_less_eq
       split: sum.splits)
  show ?thesis
  proof (cases "do_schedule ?s2 THREAD_READY")
    case (Inl e)
    then show ?thesis
      using do_schedule_switched [of ?s2 THREAD_READY]
      by (simp add: y) blast
  next
    case (Inr s3)
    then obtain n where n: "next_of (yield_queue s) (idle_thread s) = Some n"
       "magic (pages s n) = THREAD_MAGIC" "s3 = switched (drained ?s2) THREAD_READY n"
       and c: "magic (pages s (rsp_page s)) = THREAD_MAGIC"
         "status (pages s (rsp_page s)) = THREAD_RUNNING"
      by (auto simp: do_schedule_switched)
    have i: "s3\<lparr> intr_level_now := INTR_OFF \<rparr> = s3"
      by (rule intr_level_now_same) (simp add: n(3))
    have "thread_yield s =
       (if in_intr_context s then Inl (ASSERT_FAILED ''!intr_context ()'')
        else Inr (s3\<lparr> intr_level_now := (if n = rsp_page s then intr_level_now s else INTR_OFF) \<rparr>))"
      using c i by (simp add: y Inr) (simp add: n(3))
    then show ?thesis using n c by auto
  qed
qed

lemma thread_current_Inr:
  "thread_current s = Inr c \<longleftrightarrow>
     c = rsp_page s \<and> magic (pages s c) = THREAD_MAGIC \<and> status (pages s c) = THREAD_RUNNING"
  by (auto simp: thread_current_def running_thread_def is_thread_def Let_def)

lemma thread_set_priority_Inr:
  "thread_set_priority s p = Inr s' \<longleftrightarrow>
     magic (pages s (rsp_page s)) = THREAD_MAGIC \<and> status (pages s (rsp_page s)) = THREAD_RUNNING \<and>
     (let s1 = upd_thread s (rsp_page s) (\<lambda>th. th\<lparr> priority := p \<rparr>) in
      if ready_list s \<noteq> [] \<and> p < priority (pages s1 (hd (ready_list s)))
      then thread_yield s1 = Inr s' else s' = s1)"
proof (cases "thread_current s")
  case (Inl e)
  then have "\<not> (magic (pages s (rsp_page s)) = THREAD_MAGIC \<and> status (pages s (rsp_page s)) = THREAD_RUNNING)"
    using thread_current_Inr [of s "rsp_page s"] by auto
  with Inl show ?thesis by (auto simp: thread_set_priority_def)
next
  case (Inr c)
  then have c: "c = rsp_page s" "magic (pages s c) = THREAD_MAGIC" "status (pages s c) = THREAD_RUNNING"
    by (auto simp: thread_current_Inr)
  let ?s1 = "upd_thread s (rsp_page s) (\<lambda>th. th\<lparr> priority := p \<rparr>)"
  have tc: "thread_current ?s1 = Inr (rsp_page s)"
    using c by (simp add: thread_current_Inr upd_thread_def)
  have gp: "thread_get_priority ?s1 = Inr p"
    by (simp add: thread_get_priority_def tc) (simp add: upd_thread_def)
  have rl: "ready_list ?s1 = ready_list s" by (simp add: upd_thread_def)
  have "thread_set_priority s p =
     (if ready_list s \<noteq> [] \<and> p < priority (pages ?s1 (hd (ready_list s)))
      then thread_yield ?s1 else Inr ?s1)"
    using c by (cases "ready_list s") (simp_all add: thread_set_priority_def Inr max_priority_def gp rl)
  then show ?thesis using c by (auto simp: Let_def)
qed

lemma created_simps [simp]:
  "rsp_page (created s t nm prio function aux) = rsp_page s"
  "ready_list (created s t nm prio function aux) = ready_list s"
  "sleep_list (created s t nm prio function aux) = sleep_list s"
  "free_pages (created s t nm prio function aux) = tl (free_pages s)"
  "destruction_req (created s t nm prio function aux) = destruction_req s"
  "idle_thread (created s t nm prio function aux) = idle_thread s"
  "initial_thread (created s t nm prio function aux) = initial_thread s"
  "thread_ticks (created s t nm prio function aux) = thread_ticks s"
  "intr_level_now (created s t nm prio function aux) = intr_level_now s"
  "in_intr_context (created s t nm prio function aux) = in_intr_context s"
  "yield_on_return (created s t nm prio function aux) = yield_on_return s"
  "pages (created s t nm prio function aux) =
     (pages s)(t := zero_thread\<lparr> status := THREAD_BLOCKED, name := take 15 nm,
                   priority := prio, magic := THREAD_MAGIC, tid := next_tid s,
                   tf_rdi := function, tf_rsi := aux \<rparr>)"
  by (simp_all add: created_def)

lemma thread_create_Inr:
  "thread_create s nm prio function aux = Inr (new_tid, s') \<longleftrightarrow>
     function \<noteq> None \<and>
     (case free_pages s of
        [] \<Rightarrow> new_tid = TID_ERROR \<and> s' = s
      | t # _ \<Rightarrow>
          PRI_MIN \<le> prio \<and> prio \<le> PRI_MAX \<and> new_tid = next_tid s \<and> t \<noteq> rsp_page s \<and>
          magic (pages s (rsp_page s)) = THREAD_MAGIC \<and>
          status (pages s (rsp_page s)) = THREAD_RUNNING \<and>
          (\<exists>s5. thread_unblock (created s t nm prio function aux) (Some t) = Inr s5 \<and>
             (if priority (pages s (rsp_page s)) < prio then thread_yield s5 = Inr s' else s' = s5)))"
proof (cases "free_pages s")
  case Nil
  then show ?thesis by (auto simp: thread_create_def palloc_get_page_def)
next
  case (Cons t fs)
  define s4 where "s4 = created s t nm prio function aux"
  define s5 where "s5 = s4\<lparr> ready_list := list_insert_ordered (ready_list s4) t (prio_less s4),
                  pages := (pages s4)(t := (pages s4 t)\<lparr> status := THREAD_READY \<rparr>) \<rparr>"
  have u: "thread_unblock s4 (Some t) = Inr s5"
    by (simp add: thread_unblock_Inr s5_def) (simp add: s4_def)
  note u' = u [unfolded s4_def created_def Cons, simplified]
  have tc: "thread_current s5 =
      (if t = rsp_page s then Inl (ASSERT_FAILED ''t->status == THREAD_RUNNING'')
       else thread_current s)"
    by (simp add: thread_current_def running_thread_def is_thread_def s5_def s4_def Let_def)
  have pr: "priority (pages s5 t) = prio"
    "t \<noteq> rsp_page s \<Longrightarrow> priority (pages s5 (rsp_page s)) = priority (pages s (rsp_page s))"
    by (simp_all add: s5_def s4_def)
  have step1: "thread_create s nm prio function aux =
     (if function = None then Inl (ASSERT_FAILED ''function != NULL'')
      else if \<not> (PRI_MIN \<le> prio \<and> prio \<le> PRI_MAX)
        then Inl (ASSERT_FAILED ''PRI_MIN <= priority && priority <= PRI_MAX'')
      else (case thread_current s5 of
                   Inl e \<Rightarrow> Inl e
                 | Inr c \<Rightarrow>
                     if priority (pages s5 t) > priority (pages s5 c)
                     then (case thread_yield s5 of
                             Inl e \<Rightarrow> Inl e
                           | Inr s6 \<Rightarrow> Inr (next_tid s, s6))
                     else Inr (next_tid s, s5)))"
    by (simp add: thread_create_def palloc_get_page_def Cons init_thread_def allocate_tid_def
        Let_def upd_thread_def u' split: sum.splits)
  show ?thesis
  proof (cases "thread_current s")
    case (Inl e)
    then have n: "\<not> (magic (pages s (rsp_page s)) = THREAD_MAGIC \<and> status (pages s (rsp_page s)) = THREAD_RUNNING)"
      using thread_current_Inr [of s "rsp_page s"] by auto
    have "thread_create s nm prio function aux \<noteq> Inr (new_tid, s')"
      by (simp add: step1 tc Inl)
    with n show ?thesis by (auto simp: Cons)
  next
    case (Inr c)
    then have c: "c = rsp_page s" "magic (pages s c) = THREAD_MAGIC" "status (pages s c) = THREAD_RUNNING"
      by (auto simp: thread_current_Inr)
    show ?thesis
    proof (cases "t = rsp_page s")
      case True
      then show ?thesis by (simp add: step1 tc Cons)
    next
      case False
      have "thread_create s nm prio function aux =
       (if function = None then Inl (ASSERT_FAILED ''function != NULL'')
        else if \<not> (PRI_MIN \<le> prio \<and> prio \<le> PRI_MAX)
          then Inl (ASSERT_FAILED ''PRI_MIN <= priority && priority <= PRI_MAX'')
        else if priority (pages s (rsp_page s)) < prio
          then (case thread_yield s5 of Inl e \<Rightarrow> Inl e | Inr s6 \<Rightarrow> Inr (next_tid s, s6))
        else Inr (next_tid s, s5))"
        using False by (simp add: step1 tc Inr c(1) pr)
      then show ?thesis
        using False c u by (auto simp: Cons s4_def split: sum.splits)
    qed
  qed
qed

lemma thread_awake_loop_Inr:
  "thread_awake_loop s now_tick preempt = Inr (preempt', s') \<Longrightarrow>
     awake_effect s now_tick s' \<and> yield_on_return s' = yield_on_return s \<and>
     preempt' = (preempt \<or> (\<exists>t\<in>set (woken s now_tick).
                    priority (pages s (rsp_page s)) < priority (pages s t))) \<and>
     rsp_page s \<notin> set (woken s now_tick)"
proof (induction s now_tick preempt rule: thread_awake_loop.induct)
  case (1 s now_tick preempt)
  show ?case
  proof (cases "sleep_list s")
    case Nil
    with "1.prems" show ?thesis
      by (subst (asm) thread_awake_loop.simps) (auto simp: awake_effect_def woken_def)
  next
    case (Cons t rest)
    show ?thesis
    proof (cases "wakeup_tick (pages s t) \<le> now_tick")
      case False
      with Cons "1.prems" show ?thesis
        by (subst (asm) thread_awake_loop.simps) (auto simp: awake_effect_def woken_def due_def)
    next
      case True
      from "1.prems" Cons True obtain s1 c where
        u: "thread_unblock (s\<lparr> sleep_list := rest \<rparr>) (Some t) = Inr s1"
        and c: "thread_current s1 = Inr c"
        and l: "thread_awake_loop s1 now_tick
                  (if priority (pages s1 t) > priority (pages s1 c) then True else preempt)
                = Inr (preempt', s')"
        by (subst (asm) thread_awake_loop.simps) (auto split: sum.splits)
      from u have s1: "s1 = s\<lparr> sleep_list := rest,
            ready_list := list_insert_ordered (ready_list s) t (prio_less s),
            pages := (pages s)(t := (pages s t)\<lparr> status := THREAD_READY \<rparr>) \<rparr>"
        by (simp add: thread_unblock_Inr prio_less_eq)
      from c have c': "c = rsp_page s" "t \<noteq> rsp_page s"
        by (auto simp: thread_current_Inr s1 split: if_splits)
      have d: "due s1 now_tick = due s now_tick"
        by (auto simp: due_def s1 fun_eq_iff)
      have p: "prio_less s1 = prio_less s"
        by (auto simp: prio_less_eq s1 fun_eq_iff)
      have w: "woken s now_tick = t # woken s1 now_tick"
        using True by (simp add: woken_def Cons d) (simp add: s1 due_def)
      have pr: "priority (pages s1 a) = priority (pages s a)" for a
        by (simp add: s1)
      from "1.IH" [OF Cons True u c l]
      have ih: "awake_effect s1 now_tick s'" "yield_on_return s' = yield_on_return s1"
        "preempt' = ((if priority (pages s1 t) > priority (pages s1 c) then True else preempt)
            \<or> (\<exists>t\<in>set (woken s1 now_tick).
                    priority (pages s1 (rsp_page s1)) < priority (pages s1 t)))"
        "rsp_page s1 \<notin> set (woken s1 now_tick)"
        by auto
      have "awake_effect s now_tick s'"
        using ih(1) True unfolding awake_effect_def w d p
        by (simp add: Cons due_def) (auto simp: s1 fun_eq_iff)
      moreover have "yield_on_return s' = yield_on_return s" using ih(2) by (simp add: s1)
      moreover have "preempt' = (preempt \<or> (\<exists>t\<in>set (woken s now_tick).
                    priority (pages s (rsp_page s)) < priority (pages s t)))"
        using ih(3) c' by (auto simp: w pr) (auto simp: s1)
      moreover have "rsp_page s \<notin> set (woken s now_tick)"
        using ih(4) c' by (simp add: w) (simp add: s1)
      ultimately show ?thesis by blast
    qed
  qed
qed

lemma thread_awake_Inr:
  assumes "thread_awake s now_tick = Inr s'"
  shows "awake_effect s now_tick s'"
    and "yield_on_return s' = (yield_on_return s \<or> (\<exists>t\<in>set (woken s now_tick).
                    priority (pages s (rsp_page s)) < priority (pages s t)))"
    and "rsp_page s \<notin> set (woken s now_tick)"
proof -
  let ?s1 = "s\<lparr> intr_level_now := INTR_OFF \<rparr>"
  from assms obtain preempt s2 where
    l: "thread_awake_loop ?s1 now_tick False = Inr (preempt, s2)"
    and s': "s' = (if preempt then intr_yield_on_return s2 else s2)\<lparr> intr_level_now := intr_level_now s \<rparr>"
    by (auto simp: thread_awake_def intr_disable_def intr_set_level_def split: sum.splits)
  have d: "due ?s1 now_tick = due s now_tick" by (simp add: due_def fun_eq_iff)
  have w: "woken ?s1 now_tick = woken s now_tick" by (simp add: woken_def d)
  have p: "prio_less ?s1 = prio_less s" by (simp add: prio_less_eq)
  from thread_awake_loop_Inr [OF l]
  have e: "awake_effect ?s1 now_tick s2" "yield_on_return s2 = yield_on_return s"
    "preempt = (\<exists>t\<in>set (woken s now_tick). priority (pages s (rsp_page s)) < priority (pages s t))"
    "rsp_page s \<notin> set (woken s now_tick)"
    by (simp_all add: w)
  show "awake_effect s now_tick s'"
    using e(1) unfolding awake_effect_def w d p
    by (simp add: s' intr_yield_on_return_def cong: if_cong)
  show "yield_on_return s' = (yield_on_return s \<or> (\<exists>t\<in>set (woken s now_tick).
                    priority (pages s (rsp_page s)) < priority (pages s t)))"
    using e(2,3) by (simp add: s' intr_yield_on_return_def)
  show "rsp_page s \<notin> set (woken s now_tick)" by (rule e(4))
qed

lemma thread_wakeup_cmp_eq:
  "thread_wakeup_cmp s = (\<lambda>a b. wakeup_tick (pages s a) < wakeup_tick (pages s b)
      \<or> wakeup_tick (pages s a) = wakeup_tick (pages s b)
        \<and> priority (pages s b) < priority (pages s a))"
  by (auto simp: thread_wakeup_cmp_def Let_def fun_eq_iff)

lemma slept_simps [simp]:
  "rsp_page (slept s w) = rsp_page s"
  "ready_list (slept s w) = ready_list s"
  "free_pages (slept s w) = free_pages s"
  "destruction_req (slept s w) = destruction_req s"
  "idle_thread (slept s w) = idle_thread s"
  "initial_thread (slept s w) = initial_thread s"
  "next_tid (slept s w) = next_tid s"
  "thread_ticks (slept s w) = thread_ticks s"
  "intr_level_now (slept s w) = INTR_OFF"
  "in_intr_context (slept s w) = in_intr_context s"
  "yield_on_return (slept s w) = yield_on_return s"
  "pages (slept s w) = (pages s)(rsp_page s := (pages s (rsp_page s))\<lparr> wakeup_tick := w \<rparr>)"
  "sleep_list (slept s w) =
     list_insert_ordered (sleep_list s) (rsp_page s)
       (thread_wakeup_cmp (s\<lparr> pages := (pages s)(rsp_page s := (pages s (rsp_page s))\<lparr> wakeup_tick := w \<rparr>) \<rparr>))"
  by (simp_all add: slept_def Let_def upd_thread_def thread_wakeup_cmp_eq)

lemma thread_sleep_Inr:
  "thread_sleep s w = Inr s' \<longleftrightarrow>
     magic (pages s (rsp_page s)) = THREAD_MAGIC \<and> status (pages s (rsp_page s)) = THREAD_RUNNING \<and>
     (if Some (rsp_page s) = idle_thread s then s' = s
      else \<not> in_intr_context s \<and>
        (\<exists>n. next_of (ready_list s) (idle_thread s) = Some n \<and> magic (pages s n) = THREAD_MAGIC \<and>
           s' = (switched (slept s w) THREAD_BLOCKED n)
                  \<lparr> intr_level_now := (if n = rsp_page s then intr_level_now s else INTR_OFF) \<rparr>))"
proof (cases "thread_current s")
  case (Inl e)
  then have "\<not> (magic (pages s (rsp_page s)) = THREAD_MAGIC \<and> status (pages s (rsp_page s)) = THREAD_RUNNING)"
    using thread_current_Inr [of s "rsp_page s"] by auto
  with Inl show ?thesis by (auto simp: thread_sleep_def)
next
  case (Inr c)
  then have c: "c = rsp_page s" "magic (pages s c) = THREAD_MAGIC" "status (pages s c) = THREAD_RUNNING"
    by (auto simp: thread_current_Inr)
  show ?thesis
  proof (cases "Some (rsp_page s) = idle_thread s")
    case True
    then show ?thesis using c by (auto simp: thread_sleep_def Inr)
  next
    case False
    have y: "thread_sleep s w =
       (if in_intr_context s then Inl (ASSERT_FAILED ''!intr_context ()'')
        else (case thread_block (slept s w) of
                Inl e \<Rightarrow> Inl e
              | Inr s4 \<Rightarrow> Inr (if rsp_page s4 = rsp_page s
                                 then s4\<lparr> intr_level_now := intr_level_now s \<rparr> else s4)))"
      using False c(1)
      by (simp add: thread_sleep_def Inr intr_disable_def intr_set_level_def resumed_def
          running_thread_def slept_def Let_def upd_thread_def split: sum.splits)
    have tb: "thread_block (slept s w) = Inr x \<longleftrightarrow>
        \<not> in_intr_context s \<and>
        (\<exists>n. next_of (ready_list s) (idle_thread s) = Some n \<and> magic (pages s n) = THREAD_MAGIC \<and>
           x = switched (slept s w) THREAD_BLOCKED n)" for x
      using c by (auto simp: thread_block_switched)
    show ?thesis
    proof (cases "thread_block (slept s w)")
      case (Inl e)
      then have "\<not> (\<not> in_intr_context s \<and>
        (\<exists>n. next_of (ready_list s) (idle_thread s) = Some n \<and> magic (pages s n) = THREAD_MAGIC))"
        using tb by auto
      with Inl False show ?thesis by (auto simp: y)
    next
      case (Inr s4)
      then obtain n where n: "next_of (ready_list s) (idle_thread s) = Some n"
        "magic (pages s n) = THREAD_MAGIC" "s4 = switched (slept s w) THREAD_BLOCKED n"
        and nc: "\<not> in_intr_context s"
        unfolding tb by auto
      have i: "s4\<lparr> intr_level_now := INTR_OFF \<rparr> = s4"
        by (rule intr_level_now_same) (simp add: n(3))
      have "thread_sleep s w =
        Inr (s4\<lparr> intr_level_now := (if n = rsp_page s then intr_level_now s else INTR_OFF) \<rparr>)"
        using nc i by (simp add: y Inr) (simp add: n(3))
      then show ?thesis using n c nc False by auto
    qed
  qed
qed

section \<open>Claims\<close>

text \<open>
  C9. When no memory block is available, \<^verbatim>\<open>thread_create\<close> (called with an entry
  function, as its first assertion demands) returns \<^verbatim>\<open>TID_ERROR\<close> instead of stopping
  the kernel, and the kernel state it returns is the state it was called in: no thread
  id is consumed, and neither the ready queue nor any thread is modified. The priority
  is not even looked at.
\<close>

theorem thread_create_out_of_memory:
  assumes "free_pages s = []" and "function \<noteq> None"
  shows "thread_create s nm prio function aux = Inr (TID_ERROR, s)"
  using assms by (simp add: thread_create_def palloc_get_page_def)

theorem thread_create_out_of_memory_witness:
  "free_pages (example_kernel\<lparr> free_pages := [] \<rparr>) = [] \<and> Some (100 :: addr) \<noteq> None \<and>
   thread_create (example_kernel\<lparr> free_pages := [] \<rparr>) ''worker'' 99 (Some 100) None
     = Inr (TID_ERROR, example_kernel\<lparr> free_pages := [] \<rparr>)"
  using thread_create_out_of_memory
    [of "example_kernel\<lparr> free_pages := [] \<rparr>" "Some 100" "''worker''" 99 None]
  by simp

text \<open>
  C8. The priority of a thread is meant to stay within \<^verbatim>\<open>PRI_MIN\<close> .. \<^verbatim>\<open>PRI_MAX\<close>, that
  is 0 .. 63, and \<^verbatim>\<open>init_thread\<close> asserts that range when a thread is created. But
  \<^verbatim>\<open>thread_set_priority\<close> stores its argument without any check: called with 64 by
  the running thread of the example state it returns normally, and the priority of that
  thread is then 64, above \<^verbatim>\<open>PRI_MAX\<close>.
\<close>

theorem thread_set_priority_leaves_range:
  "thread_set_priority example_kernel 64
     = Inr (upd_thread example_kernel 1 (\<lambda>th. th\<lparr> priority := 64 \<rparr>))
   \<and> priority (pages (upd_thread example_kernel 1 (\<lambda>th. th\<lparr> priority := 64 \<rparr>)) 1) = 64
   \<and> PRI_MAX < 64"
  by (simp add: thread_set_priority_def thread_current_def running_thread_def is_thread_def
      upd_thread_def max_priority_def thread_get_priority_def PRI_MAX_def example_defs)

text \<open>
  C5. \<^verbatim>\<open>thread_unblock\<close> on a thread \<open>t\<close>: when the status of \<open>t\<close> is not
  \<^verbatim>\<open>THREAD_BLOCKED\<close> the call stops the kernel with a failed assertion. When \<open>t\<close>
  is a thread and is blocked, the call returns; \<open>t\<close> has been put into the ready queue
  behind the leading entries whose priority is at least its own and in front of the rest
  (which, for a ready queue sorted by non-increasing priority, is the position given by
  descending priority with first-in first-out order among equals, and keeps the queue
  sorted); the status of \<open>t\<close> is \<^verbatim>\<open>THREAD_READY\<close> and no other thread structure
  changes; the running thread is the same as before, and apart from the ready queue and
  the status of \<open>t\<close> the kernel state is the one before the call (no yield is made or
  requested, the interrupt level is restored).
\<close>

theorem thread_unblock_contract:
  "(status (pages s t) \<noteq> THREAD_BLOCKED \<longrightarrow> (\<exists>e. thread_unblock s (Some t) = Inl e)) \<and>
   (is_thread s (Some t) \<and> status (pages s t) = THREAD_BLOCKED \<longrightarrow>
      (\<exists>s'. thread_unblock s (Some t) = Inr s'
         \<and> ready_list s' = takeWhile (\<lambda>e. priority (pages s t) \<le> priority (pages s e)) (ready_list s)
              @ t # dropWhile (\<lambda>e. priority (pages s t) \<le> priority (pages s e)) (ready_list s)
         \<and> (ready_sorted s \<longrightarrow>
               ready_sorted s' \<and> placed_by_priority s t (ready_list s) (ready_list s'))
         \<and> pages s' = (pages s)(t := (pages s t)\<lparr> status := THREAD_READY \<rparr>)
         \<and> running_thread s' = running_thread s
         \<and> s'\<lparr> ready_list := ready_list s, pages := pages s \<rparr> = s))"
proof (intro conjI impI)
  assume "status (pages s t) \<noteq> THREAD_BLOCKED"
  then show "\<exists>e. thread_unblock s (Some t) = Inl e"
    by (simp add: thread_unblock_Inl)
next
  assume a: "is_thread s (Some t) \<and> status (pages s t) = THREAD_BLOCKED"
  define s' where "s' = s\<lparr> ready_list := list_insert_ordered (ready_list s) t (prio_less s),
                  pages := (pages s)(t := (pages s t)\<lparr> status := THREAD_READY \<rparr>) \<rparr>"
  have u: "thread_unblock s (Some t) = Inr s'"
    using a by (simp add: thread_unblock_Inr s'_def is_thread_def)
  have nl: "(\<lambda>e. \<not> prio_less s t e) = (\<lambda>e. priority (pages s t) \<le> priority (pages s e))"
    by (auto simp: prio_less_eq)
  have pr: "priority (pages s' a) = priority (pages s a)" for a
    by (simp add: s'_def)
  have 1: "ready_list s' = takeWhile (\<lambda>e. priority (pages s t) \<le> priority (pages s e)) (ready_list s)
              @ t # dropWhile (\<lambda>e. priority (pages s t) \<le> priority (pages s e)) (ready_list s)"
    by (simp add: s'_def list_insert_ordered_eq nl)
  have 2: "ready_sorted s' \<and> placed_by_priority s t (ready_list s) (ready_list s')"
    if "ready_sorted s"
    using that insert_by_priority_sorted [of s "ready_list s" t]
      insert_by_priority_placed [of s "ready_list s" t]
    by (simp add: ready_sorted_def pr) (simp add: s'_def)
  have 3: "pages s' = (pages s)(t := (pages s t)\<lparr> status := THREAD_READY \<rparr>)"
    "running_thread s' = running_thread s" "s'\<lparr> ready_list := ready_list s, pages := pages s \<rparr> = s"
    by (simp_all add: s'_def running_thread_def)
  from u 1 2 3 show "\<exists>s'. thread_unblock s (Some t) = Inr s'
         \<and> ready_list s' = takeWhile (\<lambda>e. priority (pages s t) \<le> priority (pages s e)) (ready_list s)
              @ t # dropWhile (\<lambda>e. priority (pages s t) \<le> priority (pages s e)) (ready_list s)
         \<and> (ready_sorted s \<longrightarrow>
               ready_sorted s' \<and> placed_by_priority s t (ready_list s) (ready_list s'))
         \<and> pages s' = (pages s)(t := (pages s t)\<lparr> status := THREAD_READY \<rparr>)
         \<and> running_thread s' = running_thread s
         \<and> s'\<lparr> ready_list := ready_list s, pages := pages s \<rparr> = s"
    by blast
qed

theorem thread_unblock_contract_witness:
  "status (pages example_kernel 3) \<noteq> THREAD_BLOCKED
   \<and> (\<exists>e. thread_unblock example_kernel (Some 3) = Inl e)
   \<and> is_thread example_kernel (Some 10) \<and> status (pages example_kernel 10) = THREAD_BLOCKED
   \<and> ready_sorted example_kernel
   \<and> (\<exists>s'. thread_unblock example_kernel (Some 10) = Inr s'
         \<and> ready_list s' = [3, 10, 4] \<and> ready_sorted s'
         \<and> status (pages s' 10) = THREAD_READY \<and> running_thread s' = 1
         \<and> yield_on_return s' = False)"
proof -
  have h1: "status (pages example_kernel 3) \<noteq> THREAD_BLOCKED"
    and h2: "is_thread example_kernel (Some 10) \<and> status (pages example_kernel 10) = THREAD_BLOCKED"
    and h3: "ready_sorted example_kernel"
    by (simp_all add: example_defs is_thread_def ready_sorted_def)
  from thread_unblock_contract [of example_kernel 3] h1
  have c1: "\<exists>e. thread_unblock example_kernel (Some 3) = Inl e" by blast
  from thread_unblock_contract [of example_kernel 10] h2 h3
  obtain s' where u: "thread_unblock example_kernel (Some 10) = Inr s'"
    and r: "ready_list s' = takeWhile (\<lambda>e. priority (pages example_kernel 10) \<le> priority (pages example_kernel e)) (ready_list example_kernel)
              @ 10 # dropWhile (\<lambda>e. priority (pages example_kernel 10) \<le> priority (pages example_kernel e)) (ready_list example_kernel)"
    and so: "ready_sorted s'"
    and pg: "pages s' = (pages example_kernel)(10 := (pages example_kernel 10)\<lparr> status := THREAD_READY \<rparr>)"
    and ru: "running_thread s' = running_thread example_kernel"
    and fr: "s'\<lparr> ready_list := ready_list example_kernel, pages := pages example_kernel \<rparr> = example_kernel"
    by blast
  have "ready_list s' = [3, 10, 4]" using r by (simp add: example_defs)
  moreover have "status (pages s' 10) = THREAD_READY" by (simp add: pg)
  moreover have "running_thread s' = 1" using ru by (simp add: example_defs running_thread_def)
  moreover have "yield_on_return s' = False"
    using arg_cong [OF fr, of yield_on_return] by (simp add: example_defs)
  ultimately show ?thesis using h1 h2 h3 c1 u so by blast
qed

lemma yield_queue_head:
  assumes "ready_list s = h # r" "priority (pages s (rsp_page s)) \<le> priority (pages s h)"
  shows "yield_queue s = h # (if Some (rsp_page s) \<noteq> idle_thread s
            then list_insert_ordered r (rsp_page s) (prio_less s) else r)"
  using assms by (simp add: yield_queue_def prio_less_eq)

text \<open>
  C7. \<^verbatim>\<open>thread_set_priority p\<close>, when it returns: the priority of the calling thread is
  \<open>p\<close>. When the ready queue is empty, or the priority of its head is not above
  \<open>p\<close>, the call has changed nothing but that priority, the caller is still running,
  and \<^verbatim>\<open>thread_get_priority\<close> called next returns \<open>p\<close>. When the ready queue is not
  empty and the priority of its head (a thread other than the caller) is above \<open>p\<close>,
  the caller has yielded: the result is that of \<^verbatim>\<open>thread_yield\<close> after the priority
  was set, the former head of the ready queue is running, and the caller has status
  \<^verbatim>\<open>THREAD_READY\<close> and, unless it is the idle thread, is in the ready queue.
\<close>

theorem thread_set_priority_effect:
  assumes "thread_set_priority s p = Inr s'"
  shows "priority (pages s' (running_thread s)) = p
    \<and> (ready_list s = [] \<or> priority (pages s (hd (ready_list s))) \<le> p \<longrightarrow>
         s' = upd_thread s (running_thread s) (\<lambda>th. th\<lparr> priority := p \<rparr>)
         \<and> thread_get_priority s' = Inr p)
    \<and> (ready_list s \<noteq> [] \<and> p < priority (pages s (hd (ready_list s)))
         \<and> hd (ready_list s) \<noteq> running_thread s \<longrightarrow>
         thread_yield (upd_thread s (running_thread s) (\<lambda>th. th\<lparr> priority := p \<rparr>)) = Inr s'
         \<and> running_thread s' = hd (ready_list s)
         \<and> status (pages s' (running_thread s)) = THREAD_READY
         \<and> (Some (running_thread s) \<noteq> idle_thread s \<longrightarrow> running_thread s \<in> set (ready_list s')))"
proof -
  let ?c = "rsp_page s"
  let ?s1 = "upd_thread s ?c (\<lambda>th. th\<lparr> priority := p \<rparr>)"
  from assms have c: "magic (pages s ?c) = THREAD_MAGIC" "status (pages s ?c) = THREAD_RUNNING"
    and r: "if ready_list s \<noteq> [] \<and> p < priority (pages ?s1 (hd (ready_list s)))
            then thread_yield ?s1 = Inr s' else s' = ?s1"
    by (simp_all add: thread_set_priority_Inr Let_def)
  have s1: "rsp_page ?s1 = ?c" "ready_list ?s1 = ready_list s" "idle_thread ?s1 = idle_thread s"
    "priority (pages ?s1 ?c) = p" "\<And>a. a \<noteq> ?c \<Longrightarrow> pages ?s1 a = pages s a"
    "\<And>a. status (pages ?s1 a) = status (pages s a)"
    by (simp_all add: upd_thread_def)
  have A: "s' = ?s1 \<and> thread_get_priority s' = Inr p"
    if "ready_list s = [] \<or> priority (pages s (hd (ready_list s))) \<le> p"
  proof -
    have "\<not> (ready_list s \<noteq> [] \<and> p < priority (pages ?s1 (hd (ready_list s))))"
      using that by (cases "hd (ready_list s) = ?c") (auto simp: s1)
    with r have "s' = ?s1" by simp
    moreover have "thread_get_priority ?s1 = Inr p"
      using c by (simp add: thread_get_priority_def thread_current_def running_thread_def
          is_thread_def upd_thread_def)
    ultimately show ?thesis by simp
  qed
  have B: "thread_yield ?s1 = Inr s' \<and> rsp_page s' = hd (ready_list s)
         \<and> status (pages s' ?c) = THREAD_READY
         \<and> (Some ?c \<noteq> idle_thread s \<longrightarrow> ?c \<in> set (ready_list s'))"
    if h: "ready_list s \<noteq> []" "p < priority (pages s (hd (ready_list s)))" "hd (ready_list s) \<noteq> ?c"
  proof -
    from h obtain hh rr where rl: "ready_list s = hh # rr" by (cases "ready_list s") auto
    with h have hh: "hh \<noteq> ?c" "p < priority (pages s hh)" by auto
    then have y: "thread_yield ?s1 = Inr s'" using r rl by (simp add: s1)
    have q: "yield_queue ?s1 = hh # (if Some ?c \<noteq> idle_thread s
            then list_insert_ordered rr ?c (prio_less ?s1) else rr)"
      using yield_queue_head [of ?s1 hh rr] hh by (simp add: s1 rl)
    from y obtain n where n: "next_of (yield_queue ?s1) (idle_thread ?s1) = Some n"
      and s': "s' = (switched (drained (?s1\<lparr> intr_level_now := INTR_OFF,
                       ready_list := yield_queue ?s1 \<rparr>)) THREAD_READY n)
               \<lparr> intr_level_now := (if n = rsp_page ?s1 then intr_level_now ?s1 else INTR_OFF) \<rparr>"
      unfolding thread_yield_switched by blast
    from n have nh: "n = hh" by (simp add: q next_of_def)
    have "rsp_page s' = hd (ready_list s)" by (simp add: s' nh rl)
    moreover have "status (pages s' ?c) = THREAD_READY"
      using hh by (simp add: s' nh s1)
    moreover have "?c \<in> set (ready_list s')" if "Some ?c \<noteq> idle_thread s"
      using that by (simp add: s' q set_list_insert_ordered)
    ultimately show ?thesis using y by simp
  qed
  have P: "priority (pages s' ?c) = p"
  proof (cases "ready_list s \<noteq> [] \<and> p < priority (pages ?s1 (hd (ready_list s)))")
    case False
    with r show ?thesis by (simp add: s1)
  next
    case True
    with r have y: "thread_yield ?s1 = Inr s'" by simp
    then obtain n where
      s': "s' = (switched (drained (?s1\<lparr> intr_level_now := INTR_OFF,
                       ready_list := yield_queue ?s1 \<rparr>)) THREAD_READY n)
               \<lparr> intr_level_now := (if n = rsp_page ?s1 then intr_level_now ?s1 else INTR_OFF) \<rparr>"
      unfolding thread_yield_switched by blast
    show ?thesis by (auto simp: s' s1 upd_thread_def)
  qed
  from A B P show ?thesis unfolding running_thread_def by blast
qed


theorem thread_set_priority_effect_witness:
  "(\<exists>s'. thread_set_priority example_kernel 40 = Inr s'
        \<and> priority (pages example_kernel (hd (ready_list example_kernel))) \<le> 40
        \<and> priority (pages s' 1) = 40 \<and> thread_get_priority s' = Inr 40
        \<and> running_thread s' = 1 \<and> ready_list s' = [3, 4])
   \<and> (\<exists>s'. thread_set_priority example_kernel 5 = Inr s'
        \<and> ready_list example_kernel \<noteq> []
        \<and> 5 < priority (pages example_kernel (hd (ready_list example_kernel)))
        \<and> hd (ready_list example_kernel) \<noteq> running_thread example_kernel
        \<and> priority (pages s' 1) = 5 \<and> running_thread s' = 3
        \<and> status (pages s' 1) = THREAD_READY \<and> 1 \<in> set (ready_list s'))"
proof -
  have r: "running_thread example_kernel = 1" "ready_list example_kernel = [3, 4]"
    "priority (pages example_kernel 3) = 31" "idle_thread example_kernel = Some 2"
    by (simp_all add: example_defs running_thread_def)
  have e1: "\<exists>s'. thread_set_priority example_kernel 40 = Inr s'"
    by (simp add: thread_set_priority_Inr Let_def upd_thread_def example_defs)
  then obtain s1 where s1: "thread_set_priority example_kernel 40 = Inr s1" ..
  have e2: "\<exists>s'. thread_set_priority example_kernel 5 = Inr s'"
    by (simp add: thread_set_priority_Inr thread_yield_switched yield_queue_def next_of_def
        prio_less_eq Let_def upd_thread_def example_defs)
  then obtain s2 where s2: "thread_set_priority example_kernel 5 = Inr s2" ..
  have t1: "ready_list example_kernel = []
      \<or> priority (pages example_kernel (hd (ready_list example_kernel))) \<le> 40"
    and t2: "ready_list example_kernel \<noteq> []
      \<and> 5 < priority (pages example_kernel (hd (ready_list example_kernel)))
      \<and> hd (ready_list example_kernel) \<noteq> running_thread example_kernel"
    by (simp_all add: r)
  from thread_set_priority_effect [OF s1] t1
  have a0: "priority (pages s1 (running_thread example_kernel)) = 40"
    "thread_get_priority s1 = Inr 40"
    "s1 = upd_thread example_kernel (running_thread example_kernel) (\<lambda>th. th\<lparr> priority := 40 \<rparr>)"
    by blast+
  have a: "priority (pages s1 1) = 40 \<and> thread_get_priority s1 = Inr 40
        \<and> running_thread s1 = 1 \<and> ready_list s1 = [3, 4]"
    using a0(1,2) r by (simp add: a0(3) upd_thread_def running_thread_def)
  from thread_set_priority_effect [OF s2] t2
  have b0: "priority (pages s2 (running_thread example_kernel)) = 5"
    "running_thread s2 = hd (ready_list example_kernel)"
    "status (pages s2 (running_thread example_kernel)) = THREAD_READY"
    "Some (running_thread example_kernel) \<noteq> idle_thread example_kernel \<longrightarrow>
       running_thread example_kernel \<in> set (ready_list s2)"
    by blast+
  have b: "priority (pages s2 1) = 5 \<and> running_thread s2 = 3
        \<and> status (pages s2 1) = THREAD_READY \<and> 1 \<in> set (ready_list s2)"
    using b0 by (simp add: r)
  from s1 s2 a b t1 t2 show ?thesis by (simp add: r)
qed

text \<open>
  C4. A call of \<^verbatim>\<open>thread_create\<close> that returns a thread id other than \<^verbatim>\<open>TID_ERROR\<close>
  took the first free page \<open>t\<close>; in the state \<open>s4\<close> in which it calls
  \<^verbatim>\<open>thread_unblock\<close> the new thread is initialised (magic set, the given priority,
  the returned id) with status \<^verbatim>\<open>THREAD_BLOCKED\<close>; \<^verbatim>\<open>thread_unblock\<close> then succeeds
  and leaves it with status \<^verbatim>\<open>THREAD_READY\<close> in the ready queue, the caller still
  running with its priority unchanged. If the new priority is strictly greater than the
  caller's, the rest of the call is \<^verbatim>\<open>thread_yield\<close> by the caller (and when the caller
  was not itself in the ready queue, the caller is then \<^verbatim>\<open>THREAD_READY\<close> and a thread
  whose priority is at least the new one is running); otherwise the call ends in the
  state \<^verbatim>\<open>thread_unblock\<close> left.
\<close>

theorem thread_create_effect:
  assumes "thread_create s nm prio function aux = Inr (new_tid, s')"
    and "new_tid \<noteq> TID_ERROR"
  shows "\<exists>t s4 s5.
      free_pages s = t # free_pages s4
      \<and> s4 = created s t nm prio function aux
      \<and> status (pages s4 t) = THREAD_BLOCKED \<and> priority (pages s4 t) = prio
      \<and> tid (pages s4 t) = new_tid \<and> magic (pages s4 t) = THREAD_MAGIC
      \<and> thread_unblock s4 (Some t) = Inr s5
      \<and> status (pages s5 t) = THREAD_READY \<and> t \<in> set (ready_list s5)
      \<and> running_thread s5 = running_thread s
      \<and> priority (pages s5 (running_thread s)) = priority (pages s (running_thread s))
      \<and> (if priority (pages s (running_thread s)) < prio
          then thread_yield s5 = Inr s'
            \<and> (running_thread s \<notin> set (ready_list s) \<longrightarrow>
                 running_thread s' \<noteq> running_thread s
                 \<and> status (pages s' (running_thread s)) = THREAD_READY
                 \<and> prio \<le> priority (pages s' (running_thread s')))
          else s' = s5)"
proof -
  let ?c = "rsp_page s"
  from assms obtain t fs where fp: "free_pages s = t # fs"
    by (cases "free_pages s") (auto simp: thread_create_Inr)
  let ?s4 = "created s t nm prio function aux"
  from assms fp obtain s5 where
    tc: "t \<noteq> ?c" "new_tid = next_tid s"
    and u: "thread_unblock ?s4 (Some t) = Inr s5"
    and r: "if priority (pages s ?c) < prio then thread_yield s5 = Inr s' else s' = s5"
    by (auto simp: thread_create_Inr)
  from u have s5: "s5 = ?s4\<lparr> ready_list := list_insert_ordered (ready_list ?s4) t (prio_less ?s4),
                  pages := (pages ?s4)(t := (pages ?s4 t)\<lparr> status := THREAD_READY \<rparr>) \<rparr>"
    by (simp add: thread_unblock_Inr)
  have p5: "priority (pages s5 a) = priority (pages ?s4 a)" for a by (simp add: s5)
  have p4: "a \<noteq> t \<Longrightarrow> priority (pages ?s4 a) = priority (pages s a)"
    "priority (pages ?s4 t) = prio" for a by simp_all
  have basic: "free_pages s = t # free_pages ?s4"
      "status (pages ?s4 t) = THREAD_BLOCKED" "priority (pages ?s4 t) = prio"
      "tid (pages ?s4 t) = new_tid" "magic (pages ?s4 t) = THREAD_MAGIC"
      "status (pages s5 t) = THREAD_READY" "t \<in> set (ready_list s5)"
      "rsp_page s5 = ?c"
      "priority (pages s5 ?c) = priority (pages s ?c)"
    using tc by (simp_all add: fp s5 set_list_insert_ordered)
  have Y: "rsp_page s' \<noteq> ?c \<and> status (pages s' ?c) = THREAD_READY
         \<and> prio \<le> priority (pages s' (rsp_page s'))"
    if lt: "priority (pages s ?c) < prio" and y: "thread_yield s5 = Inr s'"
      and nin: "?c \<notin> set (ready_list s)"
  proof -
    have rl5: "ready_list s5 = list_insert_ordered (ready_list s) t (prio_less ?s4)"
      by (simp add: s5)
    obtain h r where hr: "ready_list s5 = h # r"
      using basic(7) by (cases "ready_list s5") auto
    have hin: "h = t \<or> h \<in> set (ready_list s)"
      using hr rl5 set_list_insert_ordered [of "ready_list s" t "prio_less ?s4"]
      by (metis insert_iff list.set_intros(1))
    have hc: "h \<noteq> ?c" using hin tc nin by auto
    have hp: "prio \<le> priority (pages s5 h)"
    proof (cases "h = t")
      case True
      then show ?thesis by (simp add: p5)
    next
      case False
      with hin have hs: "h \<in> set (ready_list s)" by simp
      show ?thesis
      proof (cases "ready_list s")
        case Nil
        with hs show ?thesis by simp
      next
        case (Cons g gs)
        show ?thesis
        proof (cases "prio_less ?s4 t g")
          case True
          with Cons rl5 hr have "h = t" by simp
          with False show ?thesis by simp
        next
          case F: False
          with Cons rl5 hr have "h = g" by simp
          with F show ?thesis by (simp add: prio_less_eq p5 not_less)
        qed
      qed
    qed
    have pc: "priority (pages s5 ?c) \<le> priority (pages s5 h)"
      using hp lt basic(9) by simp
    have q: "yield_queue s5 = h # (if Some (rsp_page s5) \<noteq> idle_thread s5
            then list_insert_ordered r (rsp_page s5) (prio_less s5) else r)"
      using yield_queue_head [of s5 h r] pc hr basic(8) by simp
    from y obtain n where n: "next_of (yield_queue s5) (idle_thread s5) = Some n"
      and s': "s' = (switched (drained (s5\<lparr> intr_level_now := INTR_OFF,
                       ready_list := yield_queue s5 \<rparr>)) THREAD_READY n)
               \<lparr> intr_level_now := (if n = rsp_page s5 then intr_level_now s5 else INTR_OFF) \<rparr>"
      unfolding thread_yield_switched by blast
    from n have nh: "n = h" by (simp add: q next_of_def)
    have "rsp_page s' \<noteq> ?c" using hc by (simp add: s' nh)
    moreover have "status (pages s' ?c) = THREAD_READY"
      using hc by (simp add: s' nh basic(8))
    moreover have "prio \<le> priority (pages s' (rsp_page s'))"
      using hp by (simp add: s' nh)
    ultimately show ?thesis by simp
  qed
  show ?thesis
    unfolding running_thread_def
    using basic u r Y by (intro exI [of _ t] exI [of _ ?s4] exI [of _ s5]) (auto split: if_splits)
qed


theorem thread_create_effect_witness:
  "(\<exists>s'. thread_create example_kernel ''worker'' 40 (Some 100) None = Inr (9, s')
        \<and> 9 \<noteq> TID_ERROR
        \<and> priority (pages example_kernel (running_thread example_kernel)) < 40
        \<and> running_thread example_kernel \<notin> set (ready_list example_kernel)
        \<and> running_thread s' \<noteq> 1 \<and> status (pages s' 1) = THREAD_READY
        \<and> 40 \<le> priority (pages s' (running_thread s')))
   \<and> (\<exists>s'. thread_create example_kernel ''worker'' 20 (Some 100) None = Inr (9, s')
        \<and> \<not> priority (pages example_kernel (running_thread example_kernel)) < 20
        \<and> running_thread s' = 1 \<and> status (pages s' 8) = THREAD_READY
        \<and> 8 \<in> set (ready_list s'))"
proof -
  have r: "running_thread example_kernel = 1" "ready_list example_kernel = [3, 4]"
    "priority (pages example_kernel 1) = 31" "free_pages example_kernel = [8, 9]"
    by (simp_all add: example_defs running_thread_def)
  have n: "(9 :: int) \<noteq> TID_ERROR" by (simp add: TID_ERROR_def)
  have e1: "\<exists>s'. thread_create example_kernel ''worker'' 40 (Some 100) None = Inr (9, s')"
    by (simp add: thread_create_Inr thread_unblock_Inr thread_yield_switched yield_queue_def
        next_of_def prio_less_eq PRI_MIN_def PRI_MAX_def example_defs)
  then obtain s1 where s1: "thread_create example_kernel ''worker'' 40 (Some 100) None = Inr (9, s1)" ..
  have e2: "\<exists>s'. thread_create example_kernel ''worker'' 20 (Some 100) None = Inr (9, s')"
    by (simp add: thread_create_Inr thread_unblock_Inr PRI_MIN_def PRI_MAX_def example_defs)
  then obtain s2 where s2: "thread_create example_kernel ''worker'' 20 (Some 100) None = Inr (9, s2)" ..
  have t1: "priority (pages example_kernel (running_thread example_kernel)) < 40"
    "running_thread example_kernel \<notin> set (ready_list example_kernel)"
    and t2: "\<not> priority (pages example_kernel (running_thread example_kernel)) < 20"
    by (simp_all add: example_defs running_thread_def)
  from thread_create_effect [OF s1 n] t1
  have a0: "running_thread s1 \<noteq> running_thread example_kernel"
    "status (pages s1 (running_thread example_kernel)) = THREAD_READY"
    "40 \<le> priority (pages s1 (running_thread s1))"
    by (metis (no_types, lifting))+
  have a: "running_thread s1 \<noteq> 1 \<and> status (pages s1 1) = THREAD_READY
        \<and> 40 \<le> priority (pages s1 (running_thread s1))"
    using a0 by (simp add: r)
  from thread_create_effect [OF s2 n, unfolded if_not_P [OF t2]] obtain t where
    b0: "free_pages example_kernel = t # tl (free_pages example_kernel)"
      "status (pages s2 t) = THREAD_READY" "t \<in> set (ready_list s2)"
      "running_thread s2 = running_thread example_kernel"
    by auto
  from b0(1) have "t = 8" by (simp add: r)
  with b0 have b: "running_thread s2 = 1 \<and> status (pages s2 8) = THREAD_READY
        \<and> 8 \<in> set (ready_list s2)"
    by (simp add: r)
  from s1 s2 a b n t1 t2 show ?thesis by blast
qed

lemma sleep_sorted_due_prefix:
  assumes "sorted_wrt (wake_before s) xs"
  shows "takeWhile (due s now_tick) xs = filter (due s now_tick) xs
       \<and> dropWhile (due s now_tick) xs = filter (\<lambda>t. \<not> due s now_tick t) xs"
  using assms
proof (induction xs)
  case Nil
  then show ?case by simp
next
  case (Cons x xs)
  show ?case
  proof (cases "due s now_tick x")
    case True
    with Cons show ?thesis by simp
  next
    case False
    with Cons.prems have "\<forall>e\<in>set xs. \<not> due s now_tick e"
      by (auto simp: due_def wake_before_def)
    then have "filter (due s now_tick) xs = []" "filter (\<lambda>t. \<not> due s now_tick t) xs = xs"
      by (simp_all add: filter_empty_conv filter_id_conv)
    with False show ?thesis by simp
  qed
qed

text \<open>
  C3. \<^verbatim>\<open>thread_awake now_tick\<close>, when it returns: it has removed from the front of the
  sleep queue the entries with \<open>wakeup_tick \<le> now_tick\<close> up to the first entry that is
  not yet due (for a sleep queue in its order these are exactly the due entries, and
  exactly the others remain); it has inserted them into the ready queue one after the
  other, front to back, each with status \<^verbatim>\<open>THREAD_READY\<close>, and has changed no other
  thread; the yield-on-return flag is set afterwards if and only if it was set before or
  one of the woken threads has a priority strictly above that of the running thread; and
  the running thread, the time slice counter and the interrupt level are as before: no
  switch takes place in the call.
\<close>

theorem thread_awake_effect:
  assumes "thread_awake s now_tick = Inr s'"
  shows "sleep_list s' = dropWhile (due s now_tick) (sleep_list s)
     \<and> (sleep_sorted s \<longrightarrow>
          woken s now_tick = filter (due s now_tick) (sleep_list s)
          \<and> sleep_list s' = filter (\<lambda>t. \<not> due s now_tick t) (sleep_list s))
     \<and> ready_list s' =
          foldl (\<lambda>q t. list_insert_ordered q t (prio_less s)) (ready_list s) (woken s now_tick)
     \<and> (\<forall>t\<in>set (woken s now_tick). status (pages s' t) = THREAD_READY)
     \<and> (\<forall>t. t \<notin> set (woken s now_tick) \<longrightarrow> pages s' t = pages s t)
     \<and> yield_on_return s' =
          (yield_on_return s \<or> (\<exists>t\<in>set (woken s now_tick).
              priority (pages s (running_thread s)) < priority (pages s t)))
     \<and> running_thread s' = running_thread s
     \<and> running_thread s \<notin> set (woken s now_tick)
     \<and> thread_ticks s' = thread_ticks s
     \<and> intr_level_now s' = intr_level_now s"
proof -
  note e = thread_awake_Inr [OF assms]
  from e(1) have f: "sleep_list s' = dropWhile (due s now_tick) (sleep_list s)"
    "ready_list s' =
          foldl (\<lambda>q t. list_insert_ordered q t (prio_less s)) (ready_list s) (woken s now_tick)"
    "pages s' = (\<lambda>a. if a \<in> set (woken s now_tick)
                       then (pages s a)\<lparr> status := THREAD_READY \<rparr> else pages s a)"
    "rsp_page s' = rsp_page s" "thread_ticks s' = thread_ticks s"
    "intr_level_now s' = intr_level_now s"
    by (simp_all add: awake_effect_def)
  have g: "woken s now_tick = filter (due s now_tick) (sleep_list s)
          \<and> sleep_list s' = filter (\<lambda>t. \<not> due s now_tick t) (sleep_list s)"
    if "sleep_sorted s"
    using that sleep_sorted_due_prefix [of s "sleep_list s" now_tick]
    by (simp add: sleep_sorted_def woken_def f(1))
  show ?thesis
    using f(1,2,4,5,6) g e(2,3) by (simp add: running_thread_def f(3))
qed

theorem thread_awake_effect_witness:
  "\<exists>s'. thread_awake example_kernel 10 = Inr s'
      \<and> sleep_sorted example_kernel
      \<and> woken example_kernel 10 = [5, 6]
      \<and> sleep_list s' = [7] \<and> ready_list s' = [5, 3, 6, 4]
      \<and> status (pages s' 5) = THREAD_READY \<and> status (pages s' 6) = THREAD_READY
      \<and> status (pages s' 7) = THREAD_BLOCKED
      \<and> yield_on_return s' \<and> running_thread s' = 1 \<and> intr_level_now s' = INTR_ON"
proof -
  have e: "\<exists>s'. thread_awake example_kernel 10 = Inr s'"
    by (simp add: thread_awake_def intr_disable_def intr_set_level_def
        thread_awake_loop.simps thread_unblock_def is_thread_def upd_thread_def
        thread_current_def running_thread_def intr_yield_on_return_def Let_def example_defs)
  then obtain s' where s': "thread_awake example_kernel 10 = Inr s'" ..
  have w: "woken example_kernel 10 = [5, 6]"
    by (simp add: woken_def due_def example_defs)
  have so: "sleep_sorted example_kernel"
    by (simp add: sleep_sorted_def wake_before_def example_defs)
  have d: "filter (\<lambda>t. \<not> due example_kernel 10 t) (sleep_list example_kernel) = [7]"
    by (simp add: due_def example_defs)
  have q: "foldl (\<lambda>q t. list_insert_ordered q t (prio_less example_kernel))
             (ready_list example_kernel) [5, 6] = [5, 3, 6, 4]"
    by (simp add: prio_less_eq example_defs)
  have p: "\<exists>t\<in>set [5, 6 :: nat]. priority (pages example_kernel (running_thread example_kernel))
              < priority (pages example_kernel t)"
    "status (pages example_kernel 7) = THREAD_BLOCKED"
    "running_thread example_kernel = 1" "intr_level_now example_kernel = INTR_ON"
    by (simp_all add: running_thread_def example_defs)
  from thread_awake_effect [OF s'] so
  have t: "sleep_list s' = filter (\<lambda>t. \<not> due example_kernel 10 t) (sleep_list example_kernel)"
    "ready_list s' = foldl (\<lambda>q t. list_insert_ordered q t (prio_less example_kernel))
        (ready_list example_kernel) (woken example_kernel 10)"
    "\<forall>t\<in>set (woken example_kernel 10). status (pages s' t) = THREAD_READY"
    "\<forall>t. t \<notin> set (woken example_kernel 10) \<longrightarrow> pages s' t = pages example_kernel t"
    "yield_on_return s' =
          (yield_on_return example_kernel \<or> (\<exists>t\<in>set (woken example_kernel 10).
              priority (pages example_kernel (running_thread example_kernel))
                < priority (pages example_kernel t)))"
    "running_thread s' = running_thread example_kernel"
    "intr_level_now s' = intr_level_now example_kernel"
    by blast+
  have "sleep_list s' = [7]" using t(1) d by simp
  moreover have "ready_list s' = [5, 3, 6, 4]" using t(2) q by (simp only: w)
  moreover have "status (pages s' 5) = THREAD_READY" "status (pages s' 6) = THREAD_READY"
    using t(3) by (simp_all add: w)
  moreover have "pages s' 7 = pages example_kernel 7" using t(4) by (simp add: w)
  then have "status (pages s' 7) = THREAD_BLOCKED" using p(2) by simp
  moreover have "yield_on_return s'" using t(5) p(1) by (simp only: w) simp
  moreover have "running_thread s' = 1" "intr_level_now s' = INTR_ON"
    using t(6,7) p(3,4) by simp_all
  ultimately have "sleep_list s' = [7] \<and> ready_list s' = [5, 3, 6, 4]
      \<and> status (pages s' 5) = THREAD_READY \<and> status (pages s' 6) = THREAD_READY
      \<and> status (pages s' 7) = THREAD_BLOCKED
      \<and> yield_on_return s' \<and> running_thread s' = 1 \<and> intr_level_now s' = INTR_ON"
    by simp
  with s' so w show ?thesis by blast
qed

lemma frees_within_yield:
  assumes "thread_yield s = Inr s'"
  shows "frees_within s s'"
  using assms unfolding thread_yield_switched frees_within_def
  by (auto split: if_splits)

lemma frees_within_block:
  assumes "thread_block s = Inr s'"
  shows "frees_within s s'"
  using assms unfolding thread_block_switched frees_within_def
  by (auto split: if_splits)

lemma frees_within_exit:
  assumes "thread_exit s = Inr s'"
  shows "frees_within s s'"
  using assms unfolding thread_exit_switched frees_within_def
  by (auto split: if_splits)

lemma frees_within_unblock:
  assumes "thread_unblock s t = Inr s'"
  shows "frees_within s s'"
  using assms unfolding thread_unblock_Inr frees_within_def by auto

lemma frees_within_set_priority:
  assumes "thread_set_priority s p = Inr s'"
  shows "frees_within s s'"
proof -
  let ?s1 = "upd_thread s (rsp_page s) (\<lambda>th. th\<lparr> priority := p \<rparr>)"
  have f: "frees_within s ?s1" by (simp add: frees_within_def upd_thread_def)
  from assms have "s' = ?s1 \<or> thread_yield ?s1 = Inr s'"
    by (auto simp: thread_set_priority_Inr Let_def split: if_splits)
  then show ?thesis
    using f frees_within_yield [of ?s1 s']
    by (auto simp: frees_within_def upd_thread_def)
qed

lemma frees_within_create:
  assumes "thread_create s nm prio function aux = Inr (new_tid, s')"
  shows "frees_within s s'"
proof (cases "free_pages s")
  case Nil
  with assms show ?thesis by (simp add: thread_create_Inr frees_within_def)
next
  case (Cons t fs)
  with assms obtain s5 where
    u: "thread_unblock (created s t nm prio function aux) (Some t) = Inr s5"
    and r: "s' = s5 \<or> thread_yield s5 = Inr s'"
    by (auto simp: thread_create_Inr split: if_splits)
  from frees_within_unblock [OF u] have f: "frees_within s s5"
    by (auto simp: frees_within_def Cons)
  from r show ?thesis
    using f frees_within_yield [of s5 s'] u
    by (auto simp: frees_within_def thread_unblock_Inr)
qed

lemma frees_within_sleep:
  assumes "thread_sleep s w = Inr s'"
  shows "frees_within s s'"
  using assms unfolding thread_sleep_Inr frees_within_def by (auto split: if_splits)

lemma frees_within_awake:
  assumes "thread_awake s now_tick = Inr s'"
  shows "frees_within s s'"
  using thread_awake_Inr(1) [OF assms] by (simp add: awake_effect_def frees_within_def)

lemma frees_within_do_call:
  assumes "do_call s c = Inr s'"
  shows "frees_within s s'"
proof (cases c)
  case (Create nm prio func aux)
  with assms show ?thesis
    by (auto split: sum.splits dest: frees_within_create)
next
  case Idle_start
  with assms show ?thesis by (auto simp: frees_within_def split: sum.splits)
next
  case (Interrupt_state l b)
  with assms show ?thesis by (auto simp: frees_within_def)
qed (insert assms, auto dest: frees_within_block frees_within_unblock frees_within_yield
      frees_within_exit frees_within_set_priority frees_within_sleep frees_within_awake)

lemma initial_kept_do_call:
  assumes "initial_kept s" "do_call s c = Inr s'"
  shows "initial_kept s'"
  using assms(1) frees_within_do_call [OF assms(2)]
  by (auto simp: initial_kept_def frees_within_def split: option.splits)

lemma initial_kept_do_calls:
  "initial_kept s \<Longrightarrow> do_calls s cs = Inr s' \<Longrightarrow> initial_kept s'"
proof (induction cs arbitrary: s)
  case Nil
  then show ?case by simp
next
  case (Cons c cs)
  then show ?case
    by (auto split: sum.splits dest: initial_kept_do_call)
qed

lemmas eval_defs =
  thread_yield_def thread_exit_def thread_block_def thread_unblock_def do_schedule_def
  schedule_def next_thread_to_run_def thread_launch_def thread_current_def
  running_thread_def is_thread_def upd_thread_def intr_disable_def intr_set_level_def
  resumed_def do_schedule_loop_eq prio_less_eq Let_def

lemma example_exited_reached: "thread_exit example_worker = Inr example_exited"
  by (simp add: eval_defs example_worker_def example_exited_def mk_thread_def zero_thread_def
      THREAD_MAGIC_def fun_eq_iff)

lemma quiet_call:
  assumes "\<not> makes_scheduling_decision s c" "do_call s c = Inr s'"
  shows "destruction_req s' = destruction_req s \<and> set (free_pages s') \<subseteq> set (free_pages s)"
proof (cases c)
  case (Create nm prio func aux)
  show ?thesis
  proof (cases "free_pages s")
    case Nil
    with assms Create show ?thesis
      by (auto simp: thread_create_Inr split: sum.splits)
  next
    case (Cons t fs)
    with assms Create obtain new_tid where
      "thread_create s nm prio func aux = Inr (new_tid, s')"
      by (auto split: sum.splits)
    with assms(1) Create Cons
    have "thread_unblock (created s t nm prio func aux) (Some t) = Inr s'"
      by (auto simp: thread_create_Inr running_thread_def)
    then show ?thesis by (auto simp: thread_unblock_Inr Cons)
  qed
next
  case Block
  with assms show ?thesis by simp
next
  case (Unblock t)
  with assms show ?thesis by (auto simp: thread_unblock_Inr)
next
  case Yield
  with assms show ?thesis by simp
next
  case Exit
  with assms show ?thesis by simp
next
  case (Set_priority p)
  with assms have "s' = upd_thread s (rsp_page s) (\<lambda>th. th\<lparr> priority := p \<rparr>)"
    by (cases "ready_list s")
       (auto simp: thread_set_priority_Inr Let_def running_thread_def split: if_splits)
  then show ?thesis by (simp add: upd_thread_def)
next
  case (Sleep w)
  with assms show ?thesis
    by (auto simp: thread_sleep_Inr running_thread_def split: if_splits)
next
  case (Awake now_tick)
  with assms thread_awake_Inr(1) [of s now_tick s'] show ?thesis
    by (simp add: awake_effect_def)
next
  case Idle_start
  with assms show ?thesis by (auto split: sum.splits)
next
  case (Interrupt_state l b)
  with assms show ?thesis by auto
qed

lemma quiet_run_keeps:
  "t \<in> set (destruction_req s) \<Longrightarrow> t \<notin> set (free_pages s) \<Longrightarrow> quiet_run s cs \<Longrightarrow>
   do_calls s cs = Inr s' \<Longrightarrow> t \<in> set (destruction_req s') \<and> t \<notin> set (free_pages s')"
proof (induction cs arbitrary: s)
  case Nil
  then show ?case by simp
next
  case (Cons c cs)
  from Cons.prems obtain s1 where c: "do_call s c = Inr s1" and r: "do_calls s1 cs = Inr s'"
    and q: "\<not> makes_scheduling_decision s c" "quiet_run s1 cs"
    by (auto split: sum.splits)
  from quiet_call [OF q(1) c] Cons.prems(1,2)
  have "t \<in> set (destruction_req s1)" "t \<notin> set (free_pages s1)" by auto
  from Cons.IH [OF this q(2) r] show ?case .
qed

text \<open>
  C6, for every thread other than the initial thread. When such a thread exits
  (\<^verbatim>\<open>thread_exit\<close> hands control to another thread), the destruction list, emptied at
  the start of the call, holds exactly the page of the exiting thread; the pages freed by
  the call are those that were on the list before, so the exiting thread (now
  \<^verbatim>\<open>THREAD_DYING\<close>) is not freed by its own exit. The scheduling decision of every
  \<^verbatim>\<open>thread_yield\<close> and every \<^verbatim>\<open>thread_exit\<close> frees every page that is on the list when
  it starts; after a \<^verbatim>\<open>thread_yield\<close> the list is empty, after a \<^verbatim>\<open>thread_exit\<close> it
  holds at most the thread that exited. During any run of calls none of which makes a
  scheduling decision, a page on the destruction list stays there and stays out of the
  pool of free pages; and a page handed out by the allocator comes from that pool. Hence
  the page of an exited thread is not freed or handed out again before a later scheduling
  decision.
\<close>

theorem deferred_destruction:
  "(thread_exit s = Inr s' \<and> initial_thread s \<noteq> Some (running_thread s) \<longrightarrow>
      destruction_req s' = [running_thread s]
      \<and> free_pages s' = rev (destruction_req s) @ free_pages s
      \<and> status (pages s' (running_thread s)) = THREAD_DYING
      \<and> running_thread s' \<noteq> running_thread s)
   \<and> (thread_yield s = Inr s' \<longrightarrow>
      free_pages s' = rev (destruction_req s) @ free_pages s \<and> destruction_req s' = [])
   \<and> (thread_exit s = Inr s' \<longrightarrow>
      free_pages s' = rev (destruction_req s) @ free_pages s
      \<and> set (destruction_req s') \<subseteq> {running_thread s})
   \<and> (t \<in> set (destruction_req s) \<and> t \<notin> set (free_pages s) \<and> quiet_run s cs
        \<and> do_calls s cs = Inr s' \<longrightarrow>
      t \<in> set (destruction_req s') \<and> t \<notin> set (free_pages s'))
   \<and> (palloc_get_page s = (Some t, s') \<longrightarrow> t \<in> set (free_pages s))"
proof -
  have 1: "destruction_req s' = [running_thread s]
      \<and> free_pages s' = rev (destruction_req s) @ free_pages s
      \<and> status (pages s' (running_thread s)) = THREAD_DYING
      \<and> running_thread s' \<noteq> running_thread s"
    if a: "thread_exit s = Inr s' \<and> initial_thread s \<noteq> Some (running_thread s)"
  proof -
    from a obtain n where n: "n \<noteq> rsp_page s"
      and s': "s' = switched (drained (s\<lparr> intr_level_now := INTR_OFF \<rparr>)) THREAD_DYING n"
      by (auto simp: thread_exit_switched)
    from a have i: "Some (rsp_page s) \<noteq> initial_thread s" by (auto simp: running_thread_def)
    show ?thesis using n i by (simp add: s' running_thread_def)
  qed
  have 2: "free_pages s' = rev (destruction_req s) @ free_pages s \<and> destruction_req s' = []"
    if "thread_yield s = Inr s'"
  proof -
    from that obtain n where
      s': "s' = (switched (drained (s\<lparr> intr_level_now := INTR_OFF, ready_list := yield_queue s \<rparr>))
                THREAD_READY n)
               \<lparr> intr_level_now := (if n = rsp_page s then intr_level_now s else INTR_OFF) \<rparr>"
      by (auto simp: thread_yield_switched)
    show ?thesis by (simp add: s')
  qed
  have 3: "free_pages s' = rev (destruction_req s) @ free_pages s
      \<and> set (destruction_req s') \<subseteq> {running_thread s}"
    if "thread_exit s = Inr s'"
  proof -
    from that obtain n where
      s': "s' = switched (drained (s\<lparr> intr_level_now := INTR_OFF \<rparr>)) THREAD_DYING n"
      by (auto simp: thread_exit_switched)
    show ?thesis by (simp add: s' running_thread_def)
  qed
  have 4: "t \<in> set (destruction_req s') \<and> t \<notin> set (free_pages s')"
    if "t \<in> set (destruction_req s) \<and> t \<notin> set (free_pages s) \<and> quiet_run s cs
        \<and> do_calls s cs = Inr s'"
    using that quiet_run_keeps [of t s cs s'] by blast
  have 5: "t \<in> set (free_pages s)" if "palloc_get_page s = (Some t, s')"
    using that by (auto simp: palloc_get_page_def split: list.splits)
  from 1 2 3 4 5 show ?thesis by blast
qed

theorem deferred_destruction_witness:
  "thread_exit example_worker = Inr example_exited
   \<and> initial_thread example_worker \<noteq> Some (running_thread example_worker)
   \<and> destruction_req example_exited = [3] \<and> free_pages example_exited = [8, 9]
   \<and> status (pages example_exited 3) = THREAD_DYING
   \<and> (\<exists>s'. thread_yield example_exited = Inr s'
         \<and> free_pages s' = [3, 8, 9] \<and> destruction_req s' = [])
   \<and> (\<exists>s'. thread_exit example_exited = Inr s'
         \<and> free_pages s' = [3, 8, 9] \<and> 3 \<notin> set (destruction_req s'))
   \<and> 3 \<in> set (destruction_req example_exited) \<and> 3 \<notin> set (free_pages example_exited)
   \<and> quiet_run example_exited
        [Interrupt_state INTR_ON False, Unblock (Some 10), Create ''w'' 20 (Some 100) None]
   \<and> (\<exists>s'. do_calls example_exited
          [Interrupt_state INTR_ON False, Unblock (Some 10), Create ''w'' 20 (Some 100) None]
            = Inr s'
         \<and> 3 \<in> set (destruction_req s') \<and> 3 \<notin> set (free_pages s'))
   \<and> (\<exists>s'. palloc_get_page example_kernel = (Some 8, s'))
   \<and> 8 \<in> set (free_pages example_kernel)"
proof -
  let ?cs = "[Interrupt_state INTR_ON False, Unblock (Some 10), Create ''w'' 20 (Some 100) None]"
  note create_defs = thread_create_def init_thread_def palloc_get_page_def allocate_tid_def
    PRI_MIN_def PRI_MAX_def
  have h1: "thread_exit example_worker = Inr example_exited
      \<and> initial_thread example_worker \<noteq> Some (running_thread example_worker)"
    by (simp add: example_exited_reached) (simp add: example_worker_def running_thread_def)
  have e2: "\<exists>s'. thread_yield example_exited = Inr s'"
    by (simp add: eval_defs example_state_defs)
  then obtain s2 where s2: "thread_yield example_exited = Inr s2" ..
  have e2': "\<exists>s'. thread_exit example_exited = Inr s'"
    by (simp add: eval_defs example_state_defs)
  then obtain s5 where s5: "thread_exit example_exited = Inr s5" ..
  have h3: "3 \<in> set (destruction_req example_exited) \<and> 3 \<notin> set (free_pages example_exited)
      \<and> quiet_run example_exited ?cs"
    by (simp add: eval_defs create_defs example_state_defs)
  have e3: "\<exists>s'. do_calls example_exited ?cs = Inr s'"
    by (simp add: eval_defs create_defs example_state_defs)
  then obtain s3 where s3: "do_calls example_exited ?cs = Inr s3" ..
  have e4: "\<exists>s'. palloc_get_page example_kernel = (Some 8, s')"
    by (simp add: palloc_get_page_def example_defs)
  then obtain s4 where s4: "palloc_get_page example_kernel = (Some 8, s4)" ..
  have r: "running_thread example_worker = 3" "running_thread example_exited = 1"
    "destruction_req example_worker = []" "free_pages example_worker = [8, 9]"
    "destruction_req example_exited = [3]" "free_pages example_exited = [8, 9]"
    by (simp_all add: example_state_defs running_thread_def)
  from deferred_destruction [of example_worker example_exited] h1
  have a: "destruction_req example_exited = [running_thread example_worker]"
    "free_pages example_exited = rev (destruction_req example_worker) @ free_pages example_worker"
    "status (pages example_exited (running_thread example_worker)) = THREAD_DYING"
    by blast+
  from deferred_destruction [of example_exited s2] s2
  have b: "free_pages s2 = rev (destruction_req example_exited) @ free_pages example_exited"
    "destruction_req s2 = []"
    by blast+
  from deferred_destruction [of example_exited s5] s5
  have b5: "free_pages s5 = rev (destruction_req example_exited) @ free_pages example_exited"
    "set (destruction_req s5) \<subseteq> {running_thread example_exited}"
    by blast+
  from deferred_destruction [of example_exited s3 3 ?cs] h3 s3
  have c: "3 \<in> set (destruction_req s3) \<and> 3 \<notin> set (free_pages s3)" by blast
  from deferred_destruction [of example_kernel s4 8] s4
  have d: "8 \<in> set (free_pages example_kernel)" by blast
  from a have a': "destruction_req example_exited = [3]" "free_pages example_exited = [8, 9]"
    "status (pages example_exited 3) = THREAD_DYING"
    by (simp_all add: r)
  from b(1) have b': "free_pages s2 = [3, 8, 9]" by (simp add: r)
  from b5 have b5': "free_pages s5 = [3, 8, 9]" "3 \<notin> set (destruction_req s5)"
    by (auto simp: r)
  from h1 a' s2 b' b(2) s5 b5' h3 s3 c s4 d show ?thesis by blast
qed

text \<open>
  C6 as stated does not hold for every exiting thread and every scheduling decision. In
  the example state the initial thread exits: it is \<^verbatim>\<open>THREAD_DYING\<close> and thread 3 runs,
  but its page is not on the destruction list. And let the initial thread yield to
  thread 3 and thread 3 exit, so that page 3 is on the destruction list and the initial
  thread, switched back in, completes its \<^verbatim>\<open>thread_yield\<close> by restoring the interrupt
  level it had saved (\<open>Interrupt_state INTR_ON False\<close>). When it then disables interrupts
  and calls \<^verbatim>\<open>thread_block\<close>, as \<^verbatim>\<open>sema_down\<close> does, that scheduling decision picks
  thread 4 and page 3 is still on the list, not freed.
\<close>

theorem deferred_destruction_counterexample:
  "initial_thread example_kernel = Some (running_thread example_kernel)
   \<and> (case thread_exit example_kernel of
        Inl e \<Rightarrow> False
      | Inr s \<Rightarrow> status (pages s 1) = THREAD_DYING \<and> running_thread s = 3
          \<and> 1 \<notin> set (destruction_req s))
   \<and> (case do_calls example_kernel [Yield, Exit] of
        Inl e \<Rightarrow> False
      | Inr s \<Rightarrow> status (pages s 3) = THREAD_DYING \<and> destruction_req s = [3]
          \<and> running_thread s = 1)
   \<and> (case do_calls example_kernel
             [Yield, Exit, Interrupt_state INTR_ON False, Interrupt_state INTR_OFF False, Block] of
        Inl e \<Rightarrow> False
      | Inr s \<Rightarrow> destruction_req s = [3] \<and> 3 \<notin> set (free_pages s) \<and> running_thread s = 4)"
  by (simp add: eval_defs example_defs)

text \<open>
  C10. When the thread that \<^verbatim>\<open>schedule\<close> switches away from is the initial thread,
  \<^verbatim>\<open>schedule\<close> leaves the destruction list and the pool of free pages as they are,
  whatever the status of that thread. When the initial thread calls \<^verbatim>\<open>thread_exit\<close>
  it becomes \<^verbatim>\<open>THREAD_DYING\<close>, nothing is put on the destruction list (which the call
  has emptied before the switch), and the pages freed are those that were on the list.
  And in every state reached by any run of scheduler calls from a state in which the
  page of the initial thread is neither on the destruction list nor free, it is still
  neither: it is never queued for destruction and never freed.
\<close>

theorem initial_thread_never_destroyed:
  "(initial_thread s = Some (running_thread s) \<and> schedule s = Inr s' \<longrightarrow>
      destruction_req s' = destruction_req s \<and> free_pages s' = free_pages s)
   \<and> (initial_thread s = Some (running_thread s) \<and> thread_exit s = Inr s' \<longrightarrow>
      status (pages s' (running_thread s)) = THREAD_DYING
      \<and> destruction_req s' = []
      \<and> free_pages s' = rev (destruction_req s) @ free_pages s)
   \<and> (initial_kept s \<and> do_calls s cs = Inr s' \<longrightarrow> initial_kept s')"
proof -
  have 1: "destruction_req s' = destruction_req s \<and> free_pages s' = free_pages s"
    if "initial_thread s = Some (running_thread s) \<and> schedule s = Inr s'"
    using that by (auto simp: schedule_Inr running_thread_def)
  have 2: "status (pages s' (running_thread s)) = THREAD_DYING
      \<and> destruction_req s' = []
      \<and> free_pages s' = rev (destruction_req s) @ free_pages s"
    if a: "initial_thread s = Some (running_thread s) \<and> thread_exit s = Inr s'"
  proof -
    from a obtain n where n: "n \<noteq> rsp_page s"
      and s': "s' = switched (drained (s\<lparr> intr_level_now := INTR_OFF \<rparr>)) THREAD_DYING n"
      by (auto simp: thread_exit_switched)
    from a have i: "Some (rsp_page s) = initial_thread s" by (auto simp: running_thread_def)
    show ?thesis using n i by (simp add: s' running_thread_def)
  qed
  have 3: "initial_kept s'" if "initial_kept s \<and> do_calls s cs = Inr s'"
    using that initial_kept_do_calls by blast
  from 1 2 3 show ?thesis by blast
qed

theorem initial_thread_never_destroyed_witness:
  "initial_thread example_dying = Some (running_thread example_dying)
   \<and> (\<exists>s'. schedule example_dying = Inr s'
         \<and> destruction_req s' = [3] \<and> free_pages s' = [8, 9])
   \<and> initial_thread example_exited = Some (running_thread example_exited)
   \<and> (\<exists>s'. thread_exit example_exited = Inr s'
         \<and> status (pages s' 1) = THREAD_DYING \<and> destruction_req s' = []
         \<and> free_pages s' = [3, 8, 9])
   \<and> initial_kept example_kernel
   \<and> (\<exists>s'. do_calls example_kernel [Yield, Exit, Exit] = Inr s' \<and> initial_kept s')"
proof -
  let ?d = "example_dying"
  have h1: "initial_thread ?d = Some (running_thread ?d)"
    and h2: "initial_thread example_exited = Some (running_thread example_exited)"
    and h3: "initial_kept example_kernel"
    by (simp_all add: example_dying_def upd_thread_def running_thread_def initial_kept_def
        example_state_defs)
  have "\<exists>s'. schedule ?d = Inr s'"
    by (simp add: example_dying_def eval_defs example_state_defs)
  then obtain s1 where s1: "schedule ?d = Inr s1" ..
  have "\<exists>s'. thread_exit example_exited = Inr s'" by (simp add: eval_defs example_state_defs)
  then obtain s2 where s2: "thread_exit example_exited = Inr s2" ..
  have "\<exists>s'. do_calls example_kernel [Yield, Exit, Exit] = Inr s'"
    by (simp add: eval_defs example_state_defs)
  then obtain s3 where s3: "do_calls example_kernel [Yield, Exit, Exit] = Inr s3" ..
  have r: "destruction_req ?d = [3]" "free_pages ?d = [8, 9]"
    "running_thread example_exited = 1" "destruction_req example_exited = [3]"
    "free_pages example_exited = [8, 9]"
    by (simp_all add: example_dying_def upd_thread_def running_thread_def example_state_defs)
  from initial_thread_never_destroyed [of ?d s1] h1 s1
  have a: "destruction_req s1 = destruction_req ?d" "free_pages s1 = free_pages ?d"
    by blast+
  from initial_thread_never_destroyed [of example_exited s2] h2 s2
  have b: "status (pages s2 (running_thread example_exited)) = THREAD_DYING"
    "destruction_req s2 = []"
    "free_pages s2 = rev (destruction_req example_exited) @ free_pages example_exited"
    by blast+
  from initial_thread_never_destroyed [of example_kernel s3 "[Yield, Exit, Exit]"] h3 s3
  have c: "initial_kept s3" by blast
  from a have a': "destruction_req s1 = [3]" "free_pages s1 = [8, 9]" by (simp_all add: r)
  from b have b': "status (pages s2 1) = THREAD_DYING" "free_pages s2 = [3, 8, 9]"
    by (simp_all add: r)
  from h1 s1 a' h2 s2 b' b(2) h3 s3 c show ?thesis by blast
qed

section \<open>The order of the two queues\<close>

lemma distinct_list_insert_ordered:
  "distinct (list_insert_ordered xs a lf) = (a \<notin> set xs \<and> distinct xs)"
  by (induction xs) (auto simp: set_list_insert_ordered)

lemma sorted_wrt_tl: "sorted_wrt R xs \<Longrightarrow> sorted_wrt R (tl xs)"
  by (cases xs) auto

lemma sorted_wrt_dropWhile: "sorted_wrt R xs \<Longrightarrow> sorted_wrt R (dropWhile P xs)"
  by (induction xs) auto

lemma ready_sorted_cong:
  assumes "\<forall>a\<in>set (ready_list s'). priority (pages s' a) = priority (pages s a)"
  shows "ready_sorted s' = sorted_wrt (\<lambda>a b. priority (pages s b) \<le> priority (pages s a)) (ready_list s')"
  unfolding ready_sorted_def
  using assms
  by (auto elim!: sorted_wrt_mono_rel [rotated])

lemma sleep_sorted_cong:
  assumes "\<forall>a\<in>set (sleep_list s'). priority (pages s' a) = priority (pages s a)
             \<and> wakeup_tick (pages s' a) = wakeup_tick (pages s a)"
  shows "sleep_sorted s' = sorted_wrt (wake_before s) (sleep_list s')"
  unfolding sleep_sorted_def
  using assms
  by (auto elim!: sorted_wrt_mono_rel [rotated] simp: wake_before_def)

lemma next_of_in:
  "next_of q idle = Some n \<Longrightarrow> (q \<noteq> [] \<and> n = hd q) \<or> (q = [] \<and> idle = Some n)"
  by (cases q) (auto simp: next_of_def)

lemma hd_notin_tl: "distinct q \<Longrightarrow> q \<noteq> [] \<Longrightarrow> hd q \<notin> set (tl q)"
  by (cases q) auto

lemma in_tl: "a \<in> set (tl q) \<Longrightarrow> a \<in> set q"
  by (cases q) auto

lemma switched_fields [simp]:
  "priority (pages (switched s st n) a) = priority (pages s a)"
  "wakeup_tick (pages (switched s st n) a) = wakeup_tick (pages s a)"
  "status (pages (switched s st n) a) =
     (if a = n then THREAD_RUNNING else if a = rsp_page s then st else status (pages s a))"
  by simp_all

lemma ready_sorted_pages:
  assumes "\<And>a. priority (pages s' a) = priority (pages s a)"
  shows "ready_sorted s' = sorted_wrt (\<lambda>a b. priority (pages s b) \<le> priority (pages s a)) (ready_list s')"
  by (simp add: ready_sorted_def assms)

lemma sleep_sorted_pages:
  assumes "\<And>a. priority (pages s' a) = priority (pages s a)"
    "\<And>a. wakeup_tick (pages s' a) = wakeup_tick (pages s a)"
  shows "sleep_sorted s' = sorted_wrt (wake_before s) (sleep_list s')"
proof -
  have "wake_before s' = wake_before s" by (simp add: wake_before_def fun_eq_iff assms)
  then show ?thesis by (simp add: sleep_sorted_def)
qed

lemma ready_sorted_switched: "ready_sorted s \<Longrightarrow> ready_sorted (switched s st n)"
  by (simp add: ready_sorted_pages [of "switched s st n" s]) (simp add: ready_sorted_def sorted_wrt_tl)

lemma sleep_sorted_switched: "sleep_sorted (switched s st n) = sleep_sorted s"
  by (simp add: sleep_sorted_pages [of "switched s st n" s]) (simp add: sleep_sorted_def)

lemma wake_before_eq:
  "wake_before s = (\<lambda>a b. wakeup_tick (pages s a) < wakeup_tick (pages s b)
      \<or> wakeup_tick (pages s a) = wakeup_tick (pages s b)
        \<and> priority (pages s b) \<le> priority (pages s a))"
  by (simp add: wake_before_def fun_eq_iff)

lemma kernel_inv_intr [simp]:
  "kernel_inv (s\<lparr> intr_level_now := l \<rparr>) = kernel_inv s"
  "kernel_inv (s\<lparr> in_intr_context := b \<rparr>) = kernel_inv s"
  "kernel_inv (s\<lparr> yield_on_return := b \<rparr>) = kernel_inv s"
  by (simp_all add: kernel_inv_def ready_sorted_def sleep_sorted_def wake_before_eq)

lemma kernel_inv_switched:
  assumes so: "ready_sorted s" "sleep_sorted s"
    and di: "distinct (ready_list s)" "distinct (sleep_list s)"
      "distinct (free_pages s @ destruction_req s)"
    and sr: "\<forall>a\<in>set (ready_list s). a \<noteq> rsp_page s \<longrightarrow> status (pages s a) = THREAD_READY"
    and ss: "\<forall>a\<in>set (sleep_list s). a \<noteq> rsp_page s \<longrightarrow> status (pages s a) = THREAD_BLOCKED"
    and cr: "rsp_page s \<in> set (ready_list s) \<longrightarrow> st = THREAD_READY"
    and cs: "rsp_page s \<in> set (sleep_list s) \<longrightarrow> st = THREAD_BLOCKED"
    and fr: "\<forall>a\<in>set (free_pages s) \<union> set (destruction_req s).
            a \<noteq> rsp_page s \<and> a \<notin> set (ready_list s) \<and> a \<notin> set (sleep_list s)
            \<and> Some a \<noteq> idle_thread s"
    and id: "\<forall>a\<in>set (sleep_list s). Some a \<noteq> idle_thread s"
    and n: "next_of (ready_list s) (idle_thread s) = Some n"
    and st: "st \<noteq> THREAD_RUNNING"
    and dy: "st = THREAD_DYING \<longrightarrow> Some (rsp_page s) \<noteq> idle_thread s"
  shows "kernel_inv (switched s st n)"
proof -
  from next_of_in [OF n] have nn: "(ready_list s \<noteq> [] \<and> n = hd (ready_list s))
      \<or> (ready_list s = [] \<and> idle_thread s = Some n)" .
  then have nr: "n \<in> set (ready_list s) \<or> idle_thread s = Some n" by auto
  have a: "n \<notin> set (tl (ready_list s))"
    using nn di(1) hd_notin_tl [of "ready_list s"] by auto
  have b: "n \<notin> set (sleep_list s)"
  proof
    assume ns: "n \<in> set (sleep_list s)"
    with id have "idle_thread s \<noteq> Some n" by auto
    with nr have r: "n \<in> set (ready_list s)" by simp
    show False
    proof (cases "n = rsp_page s")
      case True
      with r ns cr cs show False by auto
    next
      case False
      with r ns sr ss show False by auto
    qed
  qed
  have c: "n \<notin> set (free_pages s) \<and> n \<notin> set (destruction_req s)"
    using nr fr by auto
  have d: "st = THREAD_DYING \<Longrightarrow> rsp_page s \<notin> set (ready_list s) \<and> rsp_page s \<notin> set (sleep_list s)"
    using cr cs by auto
  have e: "a \<in> set (tl (ready_list s)) \<Longrightarrow> a \<in> set (ready_list s)" for a
    by (rule in_tl)
  show ?thesis
    unfolding kernel_inv_def
    apply (intro conjI)
    subgoal using so(1) by (rule ready_sorted_switched)
    subgoal using so(2) by (simp add: sleep_sorted_switched)
    subgoal by simp
    subgoal using sr cr a e by auto
    subgoal using ss cs b by auto
    subgoal using di(1) by (simp add: distinct_tl)
    subgoal using di(2) by simp
    subgoal using di(3) fr by auto
    subgoal using fr c d dy e by (auto split: if_splits)
    subgoal using id by simp
    done
qed

lemma kernel_inv_block:
  assumes "kernel_inv s" "thread_block s = Inr s'"
  shows "kernel_inv s'"
proof -
  from assms(2) obtain n where n: "next_of (ready_list s) (idle_thread s) = Some n"
    and s': "s' = switched s THREAD_BLOCKED n"
    by (auto simp: thread_block_switched)
  note i = assms(1) [unfolded kernel_inv_def]
  show ?thesis
    unfolding s'
    by (rule kernel_inv_switched [OF _ _ _ _ _ _ _ _ _ _ _ n]) (use i in auto)
qed

lemma kernel_inv_exit:
  assumes "kernel_inv s" "thread_exit s = Inr s'" "Some (rsp_page s) \<noteq> idle_thread s"
  shows "kernel_inv s'"
proof -
  let ?s0 = "drained (s\<lparr> intr_level_now := INTR_OFF \<rparr>)"
  from assms(2) obtain n where n: "next_of (ready_list s) (idle_thread s) = Some n"
    and s': "s' = switched ?s0 THREAD_DYING n"
    by (auto simp: thread_exit_switched)
  note i = assms(1) [unfolded kernel_inv_def]
  have n0: "next_of (ready_list ?s0) (idle_thread ?s0) = Some n" using n by simp
  show ?thesis
    unfolding s'
    by (rule kernel_inv_switched [OF _ _ _ _ _ _ _ _ _ _ _ n0])
       (use i assms(3) in \<open>auto simp: ready_sorted_def sleep_sorted_def wake_before_eq\<close>)
qed

lemma kernel_inv_yield:
  assumes "kernel_inv s" "thread_yield s = Inr s'"
  shows "kernel_inv s'"
proof -
  let ?s0 = "drained (s\<lparr> intr_level_now := INTR_OFF, ready_list := yield_queue s \<rparr>)"
  from assms(2) obtain n where n: "next_of (yield_queue s) (idle_thread s) = Some n"
    and s': "s' = (switched ?s0 THREAD_READY n)
               \<lparr> intr_level_now := (if n = rsp_page s then intr_level_now s else INTR_OFF) \<rparr>"
    by (auto simp: thread_yield_switched)
  note i = assms(1) [unfolded kernel_inv_def]
  have n0: "next_of (ready_list ?s0) (idle_thread ?s0) = Some n" using n by simp
  have c: "rsp_page s \<notin> set (ready_list s)" "rsp_page s \<notin> set (sleep_list s)"
    using i by auto
  have q: "set (yield_queue s) \<subseteq> insert (rsp_page s) (set (ready_list s))"
    "distinct (yield_queue s)"
    "sorted_wrt (\<lambda>a b. priority (pages s b) \<le> priority (pages s a)) (yield_queue s)"
    using i c insert_by_priority_sorted [of s "ready_list s" "rsp_page s"]
    by (auto simp: yield_queue_def set_list_insert_ordered distinct_list_insert_ordered
        ready_sorted_def)
  have "kernel_inv (switched ?s0 THREAD_READY n)"
    by (rule kernel_inv_switched [OF _ _ _ _ _ _ _ _ _ _ _ n0])
       (use i c q in \<open>auto simp: ready_sorted_def sleep_sorted_def wake_before_eq\<close>)
  then show ?thesis by (simp add: s')
qed

lemma kernel_inv_unblock:
  assumes "kernel_inv s" "thread_unblock s (Some a) = Inr s'"
    "a \<notin> set (sleep_list s)" "a \<notin> set (free_pages s)" "a \<notin> set (destruction_req s)"
  shows "kernel_inv s'"
proof -
  from assms(2) have b: "status (pages s a) = THREAD_BLOCKED"
    and s': "s' = s\<lparr> ready_list := list_insert_ordered (ready_list s) a (prio_less s),
                  pages := (pages s)(a := (pages s a)\<lparr> status := THREAD_READY \<rparr>) \<rparr>"
    by (auto simp: thread_unblock_Inr)
  note i = assms(1) [unfolded kernel_inv_def]
  have c: "a \<noteq> rsp_page s" "a \<notin> set (ready_list s)" using i b by auto
  have p: "priority (pages s' x) = priority (pages s x)"
    "wakeup_tick (pages s' x) = wakeup_tick (pages s x)" for x
    by (simp_all add: s')
  have 1: "ready_sorted s'"
    using i insert_by_priority_sorted [of s "ready_list s" a]
    by (simp add: ready_sorted_pages [of s' s, OF p(1)]) (simp add: s' ready_sorted_def)
  have 2: "sleep_sorted s'"
    using i by (simp add: sleep_sorted_pages [of s' s, OF p]) (simp add: s' sleep_sorted_def)
  show ?thesis
    unfolding kernel_inv_def
    apply (intro conjI)
    subgoal by (rule 1)
    subgoal by (rule 2)
    subgoal using i c by (simp add: s')
    subgoal using i c by (auto simp: s' set_list_insert_ordered)
    subgoal using i assms(3) by (auto simp: s')
    subgoal using i c by (simp add: s' distinct_list_insert_ordered)
    subgoal using i by (simp add: s')
    subgoal using i by (simp add: s')
    subgoal using i assms(3-5) by (auto simp: s' set_list_insert_ordered)
    subgoal using i by (simp add: s')
    done
qed

lemma kernel_inv_set_priority:
  assumes "kernel_inv s" "thread_set_priority s p = Inr s'"
  shows "kernel_inv s'"
proof -
  let ?s1 = "upd_thread s (rsp_page s) (\<lambda>th. th\<lparr> priority := p \<rparr>)"
  note i = assms(1) [unfolded kernel_inv_def]
  have c: "rsp_page s \<notin> set (ready_list s)" "rsp_page s \<notin> set (sleep_list s)"
    using i by auto
  have f: "ready_list ?s1 = ready_list s" "sleep_list ?s1 = sleep_list s"
    "free_pages ?s1 = free_pages s" "destruction_req ?s1 = destruction_req s"
    "rsp_page ?s1 = rsp_page s" "idle_thread ?s1 = idle_thread s"
    "\<And>a. status (pages ?s1 a) = status (pages s a)"
    "\<And>a. wakeup_tick (pages ?s1 a) = wakeup_tick (pages s a)"
    "\<And>a. a \<noteq> rsp_page s \<Longrightarrow> priority (pages ?s1 a) = priority (pages s a)"
    by (simp_all add: upd_thread_def)
  have 1: "ready_sorted ?s1"
    using i c by (subst ready_sorted_cong [of ?s1 s]) (auto simp: upd_thread_def ready_sorted_def)
  have 2: "sleep_sorted ?s1"
    using i c by (subst sleep_sorted_cong [of ?s1 s]) (auto simp: upd_thread_def sleep_sorted_def)
  have k: "kernel_inv ?s1"
    unfolding kernel_inv_def using 1 2 i by (simp add: f)
  from assms(2) have "s' = ?s1 \<or> thread_yield ?s1 = Inr s'"
    by (auto simp: thread_set_priority_Inr Let_def split: if_splits)
  with k show ?thesis using kernel_inv_yield by blast
qed

lemma kernel_inv_create:
  assumes "kernel_inv s" "thread_create s nm prio func aux = Inr (new_tid, s')"
  shows "kernel_inv s'"
proof (cases "free_pages s")
  case Nil
  with assms show ?thesis by (simp add: thread_create_Inr)
next
  case (Cons t fs)
  let ?s4 = "created s t nm prio func aux"
  from assms(2) Cons obtain s5 where
    u: "thread_unblock ?s4 (Some t) = Inr s5"
    and r: "s' = s5 \<or> thread_yield s5 = Inr s'"
    by (auto simp: thread_create_Inr split: if_splits)
  note i = assms(1) [unfolded kernel_inv_def]
  have t: "t \<noteq> rsp_page s" "t \<notin> set (ready_list s)" "t \<notin> set (sleep_list s)"
    "t \<notin> set fs" "t \<notin> set (destruction_req s)" "Some t \<noteq> idle_thread s"
    using i by (auto simp: Cons)
  have f: "\<And>a. a \<noteq> t \<Longrightarrow> pages ?s4 a = pages s a" by simp
  have 1: "ready_sorted ?s4"
    using i t by (subst ready_sorted_cong [of ?s4 s]) (auto simp: ready_sorted_def)
  have 2: "sleep_sorted ?s4"
    using i t by (subst sleep_sorted_cong [of ?s4 s]) (auto simp: sleep_sorted_def)
  have k: "kernel_inv ?s4"
    unfolding kernel_inv_def using 1 2 i t by (auto simp: Cons)
  have "kernel_inv s5"
    by (rule kernel_inv_unblock [OF k u]) (use t in \<open>simp_all add: Cons\<close>)
  with r show ?thesis using kernel_inv_yield by blast
qed

lemma wake_before_trans: "wake_before s x y \<Longrightarrow> wake_before s y z \<Longrightarrow> wake_before s x z"
  by (auto simp: wake_before_def)

lemma kernel_inv_sleep:
  assumes "kernel_inv s" "thread_sleep s w = Inr s'"
  shows "kernel_inv s'"
proof (cases "Some (rsp_page s) = idle_thread s")
  case True
  with assms show ?thesis by (simp add: thread_sleep_Inr)
next
  case False
  let ?s0 = "slept s w"
  from assms(2) False obtain n where n: "next_of (ready_list s) (idle_thread s) = Some n"
    and s': "s' = (switched ?s0 THREAD_BLOCKED n)
               \<lparr> intr_level_now := (if n = rsp_page s then intr_level_now s else INTR_OFF) \<rparr>"
    by (auto simp: thread_sleep_Inr)
  note i = assms(1) [unfolded kernel_inv_def]
  have c: "rsp_page s \<notin> set (ready_list s)" "rsp_page s \<notin> set (sleep_list s)"
    using i by auto
  have n0: "next_of (ready_list ?s0) (idle_thread ?s0) = Some n" using n by simp
  have 1: "ready_sorted ?s0"
    using i by (subst ready_sorted_cong [of ?s0 s]) (auto simp: ready_sorted_def)
  have o: "sorted_wrt (wake_before ?s0) (sleep_list s)"
    using i c
    by (auto simp: sleep_sorted_def wake_before_def elim!: sorted_wrt_mono_rel [rotated])
  let ?p = "s\<lparr> pages := (pages s)(rsp_page s := (pages s (rsp_page s))\<lparr> wakeup_tick := w \<rparr>) \<rparr>"
  have e: "wake_before ?s0 = wake_before ?p" by (simp add: wake_before_eq)
  have 2: "sleep_sorted ?s0"
    unfolding sleep_sorted_def
    apply (simp add: e)
    apply (rule sorted_wrt_list_insert_ordered [OF wake_before_trans])
       apply assumption+
      apply (auto simp: thread_wakeup_cmp_eq wake_before_def)[2]
    using o by (simp add: e)
  have "kernel_inv (switched ?s0 THREAD_BLOCKED n)"
    apply (rule kernel_inv_switched [OF 1 2 _ _ _ _ _ _ _ _ _ n0])
    using i c False
    by (auto simp: set_list_insert_ordered distinct_list_insert_ordered)
  then show ?thesis by (simp add: s')
qed

lemma foldl_insert_set:
  "set (foldl (\<lambda>q t. list_insert_ordered q t lf) q ws) = set q \<union> set ws"
  by (induction ws arbitrary: q) (auto simp: set_list_insert_ordered)

lemma foldl_insert_distinct:
  "distinct (foldl (\<lambda>q t. list_insert_ordered q t lf) q ws)
     = (distinct q \<and> distinct ws \<and> set q \<inter> set ws = {})"
  by (induction ws arbitrary: q)
     (auto simp: set_list_insert_ordered distinct_list_insert_ordered)

lemma foldl_insert_sorted:
  "sorted_wrt (\<lambda>a b. priority (pages s b) \<le> priority (pages s a)) q \<Longrightarrow>
   sorted_wrt (\<lambda>a b. priority (pages s b) \<le> priority (pages s a))
     (foldl (\<lambda>q t. list_insert_ordered q t (prio_less s)) q ws)"
  by (induction ws arbitrary: q) (auto intro: insert_by_priority_sorted)

lemma kernel_inv_awake:
  assumes "kernel_inv s" "thread_awake s now_tick = Inr s'"
  shows "kernel_inv s'"
proof -
  note e = thread_awake_Inr [OF assms(2)]
  note f = e(1) [unfolded awake_effect_def]
  note i = assms(1) [unfolded kernel_inv_def]
  let ?w = "woken s now_tick"
  have sl: "sleep_list s = ?w @ sleep_list s'"
    using f by (simp add: woken_def)
  have w: "set ?w \<subseteq> set (sleep_list s)" "distinct ?w" "set ?w \<inter> set (sleep_list s') = {}"
    "set (sleep_list s') \<subseteq> set (sleep_list s)"
    using i distinct_append [of ?w "sleep_list s'"] by (auto simp: sl [symmetric]) (auto simp: sl)
  have p: "priority (pages s' x) = priority (pages s x)"
    "wakeup_tick (pages s' x) = wakeup_tick (pages s x)" for x
    using f by simp_all
  have st: "status (pages s' x) = (if x \<in> set ?w then THREAD_READY else status (pages s x))" for x
    using f by simp
  have wb: "\<forall>x\<in>set ?w. status (pages s x) = THREAD_BLOCKED"
    using i w(1) by blast
  have wr: "set ?w \<inter> set (ready_list s) = {}" "rsp_page s \<notin> set ?w"
    using i wb e(3) by auto
  have 1: "ready_sorted s'"
    using i foldl_insert_sorted [of s "ready_list s" ?w]
    by (simp add: ready_sorted_pages [of s' s, OF p(1)]) (simp add: f ready_sorted_def)
  have 2: "sleep_sorted s'"
    using i sorted_wrt_dropWhile [of "wake_before s" "sleep_list s" "due s now_tick"]
    by (simp add: sleep_sorted_pages [of s' s, OF p]) (simp add: f sleep_sorted_def)
  show ?thesis
    unfolding kernel_inv_def
    apply (intro conjI)
    subgoal by (rule 1)
    subgoal by (rule 2)
    subgoal using i wr f by (simp add: st)
    subgoal using i w by (auto simp: f foldl_insert_set st simp del: fun_upd_apply)
    subgoal using i w by (auto simp: st)
    subgoal using i w wr by (auto simp: f foldl_insert_distinct)
    subgoal using i sl by (metis distinct_append)
    subgoal using i f by simp
    subgoal using i w f by (auto simp: foldl_insert_set)
    subgoal using i w f by auto
    done
qed

lemma kernel_inv_do_call:
  assumes "kernel_inv s" "call_ok s c" "do_call s c = Inr s'"
  shows "kernel_inv s'"
proof (cases c)
  case (Create nm prio func aux)
  with assms show ?thesis by (auto split: sum.splits dest: kernel_inv_create)
next
  case Block
  with assms show ?thesis by (auto dest: kernel_inv_block)
next
  case (Unblock t)
  with assms show ?thesis
    by (cases t) (auto simp: thread_unblock_Inr [of s None] dest: kernel_inv_unblock)
next
  case Yield
  with assms show ?thesis by (auto dest: kernel_inv_yield)
next
  case Exit
  with assms show ?thesis by (auto simp: running_thread_def dest: kernel_inv_exit)
next
  case (Set_priority p)
  with assms show ?thesis by (auto dest: kernel_inv_set_priority)
next
  case (Sleep w)
  with assms show ?thesis by (auto dest: kernel_inv_sleep)
next
  case (Awake now_tick)
  with assms show ?thesis by (auto dest: kernel_inv_awake)
next
  case Idle_start
  with assms(3) have c: "status (pages s (rsp_page s)) = THREAD_RUNNING"
    and s': "s' = s\<lparr> idle_thread := Some (rsp_page s) \<rparr>"
    by (auto simp: thread_current_Inr split: sum.splits)
  note i = assms(1) [unfolded kernel_inv_def]
  show ?thesis
    unfolding kernel_inv_def s'
    using i by (auto simp: ready_sorted_def sleep_sorted_def wake_before_eq)
next
  case (Interrupt_state l b)
  with assms show ?thesis by auto
qed

lemma kernel_inv_do_calls:
  "kernel_inv s \<Longrightarrow> run_ok s cs \<Longrightarrow> do_calls s cs = Inr s' \<Longrightarrow> kernel_inv s'"
proof (induction cs arbitrary: s)
  case Nil
  then show ?case by simp
next
  case (Cons c cs)
  from Cons.prems obtain s1 where c: "do_call s c = Inr s1" "do_calls s1 cs = Inr s'"
    "call_ok s c" "run_ok s1 cs"
    by (auto split: sum.splits)
  from kernel_inv_do_call [OF Cons.prems(1) c(3) c(1)] have "kernel_inv s1" .
  from Cons.IH [OF this c(4) c(2)] show ?case .
qed

lemma kernel_inv_init:
  assumes "thread_init s0 = Inr s" "boot_ok s0"
  shows "kernel_inv s"
  using assms
  by (auto simp: thread_init_def init_thread_def running_thread_def allocate_tid_def Let_def
      kernel_inv_def boot_ok_def ready_sorted_def sleep_sorted_def upd_thread_def
      split: if_splits)

lemma ready_sorted_unblock:
  assumes "ready_sorted s" "thread_unblock s (Some t) = Inr s'"
  shows "ready_sorted s' \<and> placed_by_priority s t (ready_list s) (ready_list s')"
proof -
  from assms(2) have s': "s' = s\<lparr> ready_list := list_insert_ordered (ready_list s) t (prio_less s),
                  pages := (pages s)(t := (pages s t)\<lparr> status := THREAD_READY \<rparr>) \<rparr>"
    by (auto simp: thread_unblock_Inr)
  have p: "priority (pages s' x) = priority (pages s x)" for x by (simp add: s')
  show ?thesis
    using assms(1) insert_by_priority_sorted [of s "ready_list s" t]
      insert_by_priority_placed [of s "ready_list s" t]
    by (simp add: ready_sorted_pages [of s' s, OF p]) (simp add: s' ready_sorted_def)
qed

lemma ready_sorted_yield:
  assumes "ready_sorted s" "thread_yield s = Inr s'"
  shows "ready_sorted s' \<and>
    (Some (running_thread s) \<noteq> idle_thread s \<longrightarrow>
       placed_by_priority s (running_thread s) (ready_list s) (running_thread s' # ready_list s'))"
proof -
  let ?s0 = "drained (s\<lparr> intr_level_now := INTR_OFF, ready_list := yield_queue s \<rparr>)"
  from assms(2) obtain n where n: "next_of (yield_queue s) (idle_thread s) = Some n"
    and s': "s' = (switched ?s0 THREAD_READY n)
               \<lparr> intr_level_now := (if n = rsp_page s then intr_level_now s else INTR_OFF) \<rparr>"
    by (auto simp: thread_yield_switched)
  have p: "priority (pages s' x) = priority (pages s x)" for x by (simp add: s')
  have q: "sorted_wrt (\<lambda>a b. priority (pages s b) \<le> priority (pages s a)) (yield_queue s)"
    using assms(1) insert_by_priority_sorted [of s "ready_list s" "rsp_page s"]
    by (simp add: yield_queue_def ready_sorted_def)
  have 1: "ready_sorted s'"
    using q by (simp add: ready_sorted_pages [of s' s, OF p]) (simp add: s' sorted_wrt_tl)
  have 2: "placed_by_priority s (rsp_page s) (ready_list s) (rsp_page s' # ready_list s')"
    if "Some (rsp_page s) \<noteq> idle_thread s"
  proof -
    from that have y: "yield_queue s = list_insert_ordered (ready_list s) (rsp_page s) (prio_less s)"
      by (simp add: yield_queue_def)
    then have "yield_queue s \<noteq> []" by (cases "ready_list s") auto
    with n have "rsp_page s' # ready_list s' = yield_queue s"
      by (cases "yield_queue s") (auto simp: s' next_of_def)
    then show ?thesis
      using assms(1) insert_by_priority_placed [of s "ready_list s" "rsp_page s"]
      by (simp add: y ready_sorted_def)
  qed
  from 1 2 show ?thesis by (simp add: running_thread_def)
qed

lemma sorted_prefix_filter:
  assumes "sorted_wrt le xs" "\<And>x y. le x y \<Longrightarrow> P y \<Longrightarrow> P x"
  shows "takeWhile P xs = filter P xs \<and> dropWhile P xs = filter (\<lambda>e. \<not> P e) xs"
  using assms(1)
proof (induction xs)
  case Nil
  then show ?case by simp
next
  case (Cons x xs)
  show ?case
  proof (cases "P x")
    case True
    with Cons show ?thesis by simp
  next
    case False
    with Cons.prems assms(2) have "\<forall>y\<in>set xs. \<not> P y" by auto
    then have "filter P xs = []" "filter (\<lambda>e. \<not> P e) xs = xs" by (auto simp: filter_empty_conv)
    with False show ?thesis by simp
  qed
qed

lemma sleep_sorted_sleep:
  assumes "sleep_sorted s" "running_thread s \<notin> set (sleep_list s)"
    "Some (running_thread s) \<noteq> idle_thread s" "thread_sleep s w = Inr s'"
  shows "sleep_sorted s' \<and> wakeup_tick (pages s' (running_thread s)) = w
         \<and> placed_by_wake s' (running_thread s) (sleep_list s) (sleep_list s')"
proof -
  let ?c = "rsp_page s"
  let ?s0 = "slept s w"
  let ?p = "s\<lparr> pages := (pages s)(?c := (pages s ?c)\<lparr> wakeup_tick := w \<rparr>) \<rparr>"
  from assms have c: "?c \<notin> set (sleep_list s)" "Some ?c \<noteq> idle_thread s"
    by (simp_all add: running_thread_def)
  from assms(4) c obtain n where n: "next_of (ready_list s) (idle_thread s) = Some n"
    and s': "s' = (switched ?s0 THREAD_BLOCKED n)
               \<lparr> intr_level_now := (if n = rsp_page s then intr_level_now s else INTR_OFF) \<rparr>"
    by (auto simp: thread_sleep_Inr)
  have f: "wakeup_tick (pages s' a) = wakeup_tick (pages ?p a)"
    "priority (pages s' a) = priority (pages ?p a)" for a
    by (simp_all add: s')
  have e: "wake_before s' = wake_before ?p" by (simp add: wake_before_def fun_eq_iff f)
  have l: "sleep_list s' = list_insert_ordered (sleep_list s) ?c (thread_wakeup_cmp ?p)"
    by (simp add: s' slept_def upd_thread_def thread_wakeup_cmp_eq)
  have o: "sorted_wrt (wake_before ?p) (sleep_list s)"
    using assms(1) c
    by (auto simp: sleep_sorted_def wake_before_def elim!: sorted_wrt_mono_rel [rotated])
  have n: "(\<lambda>e. \<not> thread_wakeup_cmp ?p ?c e) = (\<lambda>e. wake_before ?p e ?c)"
    by (auto simp: thread_wakeup_cmp_eq wake_before_def fun_eq_iff)
  have 1: "sleep_sorted s'"
    unfolding sleep_sorted_def e l
    apply (rule sorted_wrt_list_insert_ordered [OF wake_before_trans])
       apply assumption+
      apply (auto simp: thread_wakeup_cmp_eq wake_before_def)[2]
    using o by simp
  have 2: "wakeup_tick (pages s' ?c) = w" by (simp add: s')
  have 3: "placed_by_wake s' ?c (sleep_list s) (sleep_list s')"
    unfolding placed_by_wake_def e
    using sorted_prefix_filter [of "wake_before ?p" "sleep_list s" "\<lambda>e. wake_before ?p e ?c", OF o]
      wake_before_trans [of ?p]
    by (simp add: l list_insert_ordered_eq n)
  from 1 2 3 show ?thesis by (simp add: running_thread_def)
qed

text \<open>
  C1. The ready queue is sorted by non-increasing priority at every instant: the order
  holds after \<^verbatim>\<open>thread_init\<close> and after every admissible run of scheduler calls from a
  state in which it holds. The two operations that insert into the ready queue keep it
  sorted and place the thread behind every queued thread of priority at least its own and
  in front of those of lower priority, the queued threads keeping their relative order
  (FIFO among equal priorities): \<^verbatim>\<open>thread_unblock\<close> the unblocked thread, \<^verbatim>\<open>thread_yield\<close>
  the yielding thread, after which the head of the queue is taken to run.
\<close>

theorem ready_queue_order:
  "(kernel_inv s \<and> run_ok s cs \<and> do_calls s cs = Inr s' \<longrightarrow> ready_sorted s')
   \<and> (boot_ok s \<and> thread_init s = Inr s' \<longrightarrow> kernel_inv s')
   \<and> (ready_sorted s \<and> thread_unblock s (Some t) = Inr s' \<longrightarrow>
        ready_sorted s' \<and> placed_by_priority s t (ready_list s) (ready_list s'))
   \<and> (ready_sorted s \<and> thread_yield s = Inr s' \<longrightarrow>
        ready_sorted s'
        \<and> (Some (running_thread s) \<noteq> idle_thread s \<longrightarrow>
             placed_by_priority s (running_thread s) (ready_list s)
               (running_thread s' # ready_list s')))"
proof -
  have 1: "ready_sorted s'" if "kernel_inv s \<and> run_ok s cs \<and> do_calls s cs = Inr s'"
    using that kernel_inv_do_calls [of s cs s'] by (simp add: kernel_inv_def)
  have 2: "kernel_inv s'" if "boot_ok s \<and> thread_init s = Inr s'"
    using that kernel_inv_init by blast
  from 1 2 ready_sorted_unblock [of s t s'] ready_sorted_yield [of s s']
  show ?thesis by blast
qed

theorem ready_queue_order_witness:
  "kernel_inv example_kernel \<and> run_ok example_kernel [Unblock (Some 10), Yield, Set_priority 5]
   \<and> (\<exists>s'. do_calls example_kernel [Unblock (Some 10), Yield, Set_priority 5] = Inr s'
         \<and> ready_sorted s')
   \<and> boot_ok example_boot \<and> (\<exists>s'. thread_init example_boot = Inr s' \<and> kernel_inv s')
   \<and> ready_sorted example_kernel
   \<and> (\<exists>s'. thread_unblock example_kernel (Some 10) = Inr s' \<and> ready_sorted s'
         \<and> ready_list s' = [3, 10, 4])
   \<and> Some (running_thread example_kernel) \<noteq> idle_thread example_kernel
   \<and> (\<exists>s'. thread_yield example_kernel = Inr s' \<and> ready_sorted s'
         \<and> running_thread s' # ready_list s' = [3, 1, 4])"
proof -
  let ?cs = "[Unblock (Some 10), Yield, Set_priority 5]"
  have h1: "kernel_inv example_kernel"
    by (simp add: kernel_inv_def ready_sorted_def sleep_sorted_def wake_before_def example_defs)
  have h2: "run_ok example_kernel ?cs"
    by (simp add: eval_defs thread_set_priority_def max_priority_def thread_get_priority_def example_defs)
  have "\<exists>s'. do_calls example_kernel ?cs = Inr s'"
    by (simp add: eval_defs thread_set_priority_def max_priority_def thread_get_priority_def example_defs)
  then obtain s1 where s1: "do_calls example_kernel ?cs = Inr s1" ..
  have h3: "boot_ok example_boot"
    by (simp add: boot_ok_def example_boot_def running_thread_def example_defs)
  have "\<exists>s'. thread_init example_boot = Inr s'"
    by (simp add: thread_init_def init_thread_def allocate_tid_def running_thread_def
        upd_thread_def Let_def PRI_MIN_def PRI_MAX_def PRI_DEFAULT_def example_boot_def
        example_defs)
  then obtain s2 where s2: "thread_init example_boot = Inr s2" ..
  have h4: "ready_sorted example_kernel"
    and h5: "Some (running_thread example_kernel) \<noteq> idle_thread example_kernel"
    by (simp_all add: ready_sorted_def running_thread_def example_defs)
  have "\<exists>s'. thread_unblock example_kernel (Some 10) = Inr s'"
    by (simp add: eval_defs example_defs)
  then obtain s3 where s3: "thread_unblock example_kernel (Some 10) = Inr s3" ..
  have "\<exists>s'. thread_yield example_kernel = Inr s'"
    by (simp add: eval_defs example_defs)
  then obtain s4 where s4: "thread_yield example_kernel = Inr s4" ..
  from ready_queue_order [of example_kernel ?cs s1] h1 h2 s1
  have a: "ready_sorted s1" by blast
  from ready_queue_order [of example_boot _ s2] h3 s2
  have b: "kernel_inv s2" by blast
  from ready_queue_order [of example_kernel _ s3 10] h4 s3
  have c: "ready_sorted s3"
    "placed_by_priority example_kernel 10 (ready_list example_kernel) (ready_list s3)"
    by blast+
  from ready_queue_order [of example_kernel _ s4] h4 h5 s4
  have d: "ready_sorted s4"
    "placed_by_priority example_kernel (running_thread example_kernel)
       (ready_list example_kernel) (running_thread s4 # ready_list s4)"
    by blast+
  have c': "ready_list s3 = [3, 10, 4]"
    using c(2) by (simp add: placed_by_priority_def example_defs)
  have d': "running_thread s4 # ready_list s4 = [3, 1, 4]"
    using d(2) by (simp add: placed_by_priority_def running_thread_def example_defs)
  from h1 h2 s1 a h3 s2 b h4 s3 c(1) c' h5 s4 d(1) d' show ?thesis by blast
qed

text \<open>
  C2. The sleep queue is sorted by non-decreasing wake tick and, among equal wake ticks,
  by non-increasing priority at every instant: the order holds after \<^verbatim>\<open>thread_init\<close> and
  after every admissible run of scheduler calls from a state in which it holds.
  \<^verbatim>\<open>thread_sleep\<close> records the wake tick and inserts the caller in its place of that order,
  behind the entries that wake earlier or at the same tick with at least its priority.
\<close>

theorem sleep_queue_order:
  "(kernel_inv s \<and> run_ok s cs \<and> do_calls s cs = Inr s' \<longrightarrow> sleep_sorted s')
   \<and> (boot_ok s \<and> thread_init s = Inr s' \<longrightarrow> kernel_inv s')
   \<and> (sleep_sorted s \<and> running_thread s \<notin> set (sleep_list s)
        \<and> Some (running_thread s) \<noteq> idle_thread s \<and> thread_sleep s w = Inr s' \<longrightarrow>
        sleep_sorted s' \<and> wakeup_tick (pages s' (running_thread s)) = w
        \<and> placed_by_wake s' (running_thread s) (sleep_list s) (sleep_list s'))"
proof -
  have 1: "sleep_sorted s'" if "kernel_inv s \<and> run_ok s cs \<and> do_calls s cs = Inr s'"
    using that kernel_inv_do_calls [of s cs s'] by (simp add: kernel_inv_def)
  have 2: "kernel_inv s'" if "boot_ok s \<and> thread_init s = Inr s'"
    using that kernel_inv_init by blast
  from 1 2 sleep_sorted_sleep [of s w s']
  show ?thesis by blast
qed

theorem sleep_queue_order_witness:
  "kernel_inv example_kernel \<and> run_ok example_kernel [Sleep 20, Awake 10, Sleep 10]
   \<and> (\<exists>s'. do_calls example_kernel [Sleep 20, Awake 10, Sleep 10] = Inr s' \<and> sleep_sorted s')
   \<and> boot_ok example_boot \<and> (\<exists>s'. thread_init example_boot = Inr s' \<and> kernel_inv s')
   \<and> sleep_sorted example_kernel
   \<and> running_thread example_kernel \<notin> set (sleep_list example_kernel)
   \<and> Some (running_thread example_kernel) \<noteq> idle_thread example_kernel
   \<and> (\<exists>s'. thread_sleep example_kernel 10 = Inr s' \<and> sleep_sorted s'
         \<and> wakeup_tick (pages s' 1) = 10 \<and> sleep_list s' = [5, 1, 6, 7])"
proof -
  let ?cs = "[Sleep 20, Awake 10, Sleep 10]"
  note sleep_defs = thread_sleep_def thread_awake_def thread_awake_loop.simps
    thread_wakeup_cmp_eq intr_yield_on_return_def
  have h1: "kernel_inv example_kernel"
    by (simp add: kernel_inv_def ready_sorted_def sleep_sorted_def wake_before_def example_defs)
  have h2: "run_ok example_kernel ?cs"
    by (simp add: eval_defs sleep_defs example_defs)
  have "\<exists>s'. do_calls example_kernel ?cs = Inr s'"
    by (simp add: eval_defs sleep_defs example_defs)
  then obtain s1 where s1: "do_calls example_kernel ?cs = Inr s1" ..
  have h3: "boot_ok example_boot"
    by (simp add: boot_ok_def example_boot_def running_thread_def example_defs)
  have "\<exists>s'. thread_init example_boot = Inr s'"
    by (simp add: thread_init_def init_thread_def allocate_tid_def running_thread_def
        upd_thread_def Let_def PRI_MIN_def PRI_MAX_def PRI_DEFAULT_def example_boot_def
        example_defs)
  then obtain s2 where s2: "thread_init example_boot = Inr s2" ..
  have h4: "sleep_sorted example_kernel"
    and h5: "running_thread example_kernel \<notin> set (sleep_list example_kernel)"
    and h6: "Some (running_thread example_kernel) \<noteq> idle_thread example_kernel"
    by (simp_all add: sleep_sorted_def wake_before_def running_thread_def example_defs)
  have "\<exists>s'. thread_sleep example_kernel 10 = Inr s'"
    by (simp add: eval_defs sleep_defs example_defs)
  then obtain s3 where s3: "thread_sleep example_kernel 10 = Inr s3" ..
  from sleep_queue_order [of example_kernel ?cs s1] h1 h2 s1
  have a: "sleep_sorted s1" by blast
  from sleep_queue_order [of example_boot _ s2] h3 s2
  have b: "kernel_inv s2" by blast
  from sleep_queue_order [of example_kernel _ s3 10] h4 h5 h6 s3
  have c: "sleep_sorted s3" "wakeup_tick (pages s3 (running_thread example_kernel)) = 10"
    "placed_by_wake s3 (running_thread example_kernel) (sleep_list example_kernel) (sleep_list s3)"
    by blast+
  have r: "running_thread example_kernel = 1" by (simp add: running_thread_def example_defs)
  have p: "pages s3 a = (if a = 1 then (pages example_kernel 1)\<lparr> wakeup_tick := 10, status := THREAD_BLOCKED \<rparr>
              else if a = 3 then (pages example_kernel 3)\<lparr> status := THREAD_RUNNING \<rparr>
              else pages example_kernel a)" for a
    using s3 by (auto simp: thread_sleep_Inr next_of_def example_defs)
  have c2: "wakeup_tick (pages s3 1) = 10" using c(2) by (simp add: r)
  have c3: "sleep_list s3 = [5, 1, 6, 7]"
    using c(3) by (simp add: placed_by_wake_def wake_before_def r p) (simp add: example_defs)
  from h1 h2 s1 a h3 s2 b h4 h5 h6 s3 c(1) c2 c3 show ?thesis by blast
qed

end
